theory Spec2Isabelle
  imports Main "HOL-Library.AList" "HOL-Library.Multiset" "HOL-Library.Sublist"
begin

section \<open>Python values\<close>

text \<open>
  The element records of \<^verbatim>\<open>src/Utilities/utils.py\<close> are Python dictionaries with string
  keys whose values are \<^verbatim>\<open>None\<close>, booleans, integers, strings, lists and nested
  dictionaries. A dictionary is an association list in insertion order with one entry
  per key. Strings are lists of 8-bit characters, read as the code points below 256.
\<close>

datatype pyval =
    PNone
  | PBool bool
  | PInt int
  | PStr string
  | PList "pyval list"
  | PDict "(string \<times> pyval) list"

type_synonym pydict = "(string \<times> pyval) list"

datatype error = TypeError | KeyError | IndexError

text \<open>Truth value of an object, as tested by \<^verbatim>\<open>if x:\<close> and \<^verbatim>\<open>x or y\<close>.\<close>

fun truthy :: "pyval \<Rightarrow> bool" where
  "truthy PNone = False"
| "truthy (PBool b) = b"
| "truthy (PInt i) = (i \<noteq> 0)"
| "truthy (PStr s) = (s \<noteq> [])"
| "truthy (PList xs) = (xs \<noteq> [])"
| "truthy (PDict d) = (d \<noteq> [])"

definition py_or :: "pyval \<Rightarrow> pyval \<Rightarrow> pyval" where
  "py_or a b = (if truthy a then a else b)"

subsection \<open>Dictionary operations\<close>

text \<open>\<^verbatim>\<open>d.get(k)\<close>, \<^verbatim>\<open>d.get(k, default)\<close>, \<^verbatim>\<open>d[k]\<close>, \<^verbatim>\<open>d[k] = v\<close> and \<^verbatim>\<open>d.pop(k)\<close>.\<close>

definition dict_get :: "pydict \<Rightarrow> string \<Rightarrow> pyval" where
  "dict_get d k = (case map_of d k of None \<Rightarrow> PNone | Some v \<Rightarrow> v)"

definition dict_get_default :: "pydict \<Rightarrow> string \<Rightarrow> pyval \<Rightarrow> pyval" where
  "dict_get_default d k dflt = (case map_of d k of None \<Rightarrow> dflt | Some v \<Rightarrow> v)"

definition dict_item :: "pydict \<Rightarrow> string \<Rightarrow> error + pyval" where
  "dict_item d k = (case map_of d k of None \<Rightarrow> Inl KeyError | Some v \<Rightarrow> Inr v)"

definition dict_set :: "pydict \<Rightarrow> string \<Rightarrow> pyval \<Rightarrow> pydict" where
  "dict_set d k v = AList.update k v d"

definition dict_pop :: "pydict \<Rightarrow> string \<Rightarrow> pydict" where
  "dict_pop d k = AList.delete k d"

subsection \<open>String operations\<close>

text \<open>\<^verbatim>\<open>s.split(sep)\<close> for a non-empty separator: non-overlapping matches from the left.\<close>

function str_split :: "string \<Rightarrow> string \<Rightarrow> string list" where
  "str_split sep s =
     (if sep = [] then [s]
      else if s = [] then [[]]
      else if take (length sep) s = sep then [] # str_split sep (drop (length sep) s)
      else (case str_split sep (tl s) of
              p # ps \<Rightarrow> (hd s # p) # ps
            | [] \<Rightarrow> [[hd s]]))"
  by pat_completeness auto
termination
  by (relation "measure (\<lambda>(sep, s). length s)") auto

declare str_split.simps [simp del]

text \<open>\<^verbatim>\<open>s.split(sep, 1)\<close>: at most one split, at the first match.\<close>

fun str_split1 :: "string \<Rightarrow> string \<Rightarrow> string list" where
  "str_split1 sep [] = [[]]"
| "str_split1 sep (c # cs) =
     (if sep \<noteq> [] \<and> take (length sep) (c # cs) = sep then [[], drop (length sep) (c # cs)]
      else (case str_split1 sep cs of
              [p] \<Rightarrow> [c # p]
            | p # q # _ \<Rightarrow> [c # p, q]
            | [] \<Rightarrow> [[c]]))"

text \<open>\<^verbatim>\<open>s.startswith(prefix)\<close>\<close>

definition startswith :: "string \<Rightarrow> string \<Rightarrow> bool" where
  "startswith s p = (take (length p) s = p)"

text \<open>\<^verbatim>\<open>s.rstrip(chars)\<close> removes the trailing characters that occur in \<open>chars\<close>.\<close>

definition str_rstrip :: "string \<Rightarrow> string \<Rightarrow> string" where
  "str_rstrip chars s = rev (dropWhile (\<lambda>c. c \<in> set chars) (rev s))"

fun intercalate :: "string \<Rightarrow> string list \<Rightarrow> string" where
  "intercalate sep [] = []"
| "intercalate sep [p] = p"
| "intercalate sep (p # q # ps) = p @ sep @ intercalate sep (q # ps)"

text \<open>
  \<^verbatim>\<open>sep.join(x)\<close>: \<open>None\<close> stands for the \<^verbatim>\<open>TypeError\<close> raised when \<open>x\<close> is not iterable
  or yields something that is not a string. A string iterates over its characters, a
  dictionary over its keys.
\<close>

fun the_strs :: "pyval list \<Rightarrow> string list option" where
  "the_strs [] = Some []"
| "the_strs (PStr s # vs) = (case the_strs vs of None \<Rightarrow> None | Some ss \<Rightarrow> Some (s # ss))"
| "the_strs (_ # vs) = None"

fun str_join :: "string \<Rightarrow> pyval \<Rightarrow> string option" where
  "str_join sep (PList xs) = (case the_strs xs of None \<Rightarrow> None | Some ss \<Rightarrow> Some (intercalate sep ss))"
| "str_join sep (PStr s) = Some (intercalate sep (map (\<lambda>c. [c]) s))"
| "str_join sep (PDict d) = Some (intercalate sep (map fst d))"
| "str_join sep _ = None"

text \<open>
  \<^verbatim>\<open>str(x)\<close>, which an f-string applies to each interpolated value, and \<^verbatim>\<open>repr(x)\<close>, which
  \<^verbatim>\<open>str\<close> of a list or dictionary applies to the items.
\<close>

fun dec_nat :: "nat \<Rightarrow> string" where
  "dec_nat n = (if n < 10 then [char_of (48 + n)] else dec_nat (n div 10) @ [char_of (48 + n mod 10)])"

definition hex_digit :: "nat \<Rightarrow> char" where
  "hex_digit n = (if n < 10 then char_of (48 + n) else char_of (87 + n))"

definition printable :: "char \<Rightarrow> bool" where
  "printable c = (let n = (of_char c :: nat) in (32 \<le> n \<and> n < 127) \<or> (161 \<le> n \<and> n \<noteq> 173))"

definition repr_char :: "char \<Rightarrow> char \<Rightarrow> string" where
  "repr_char quote c =
     (if c = quote \<or> c = CHR 0x5C then [CHR 0x5C, c]
      else if c = CHR 0x09 then [CHR 0x5C, CHR ''t'']
      else if c = CHR 0x0A then [CHR 0x5C, CHR ''n'']
      else if c = CHR 0x0D then [CHR 0x5C, CHR ''r'']
      else if printable c then [c]
      else [CHR 0x5C, CHR ''x'', hex_digit ((of_char c :: nat) div 16), hex_digit ((of_char c :: nat) mod 16)])"

definition repr_str :: "string \<Rightarrow> string" where
  "repr_str s =
     (let quote = (if CHR 0x27 \<in> set s \<and> CHR 0x22 \<notin> set s then CHR 0x22 else CHR 0x27)
      in [quote] @ concat (map (repr_char quote) s) @ [quote])"

fun py_repr :: "pyval \<Rightarrow> string" where
  "py_repr PNone = ''None''"
| "py_repr (PBool b) = (if b then ''True'' else ''False'')"
| "py_repr (PInt i) = (if i < 0 then ''-'' @ dec_nat (nat (- i)) else dec_nat (nat i))"
| "py_repr (PStr s) = repr_str s"
| "py_repr (PList xs) = ''['' @ intercalate '', '' (map py_repr xs) @ '']''"
| "py_repr (PDict d) =
     ''{'' @ intercalate '', '' (map (\<lambda>(k, v). repr_str k @ '': '' @ py_repr v) d) @ ''}''"

definition py_str :: "pyval \<Rightarrow> string" where
  "py_str v = (case v of PStr s \<Rightarrow> s | _ \<Rightarrow> py_repr v)"

section \<open>Derived values: \<^verbatim>\<open>get_nested_value\<close>\<close>

text \<open>
  The helper nested in \<^verbatim>\<open>add_uniqueness_context\<close> (utils.py, lines 836 to 891). Its
  \<^verbatim>\<open>try\<close> block turns every \<^verbatim>\<open>AttributeError\<close> and \<^verbatim>\<open>TypeError\<close> into \<^verbatim>\<open>None\<close>: calling
  \<^verbatim>\<open>.get\<close> or \<^verbatim>\<open>.split\<close> on a value that has no such method, and joining something that
  is not a collection of strings. The composite keys are tested first, one definition
  per branch.
\<close>

definition sibling_text_value :: "pydict \<Rightarrow> pyval" where
  "sibling_text_value data_dict =
     py_or (dict_get data_dict ''next_sibling_text'') (dict_get data_dict ''prev_sibling_text'')"

definition parent_classes_value :: "pydict \<Rightarrow> pyval" where
  "parent_classes_value data_dict =
     (let parent_info = dict_get data_dict ''parent'' in
      if truthy parent_info then
        (case parent_info of
           PDict p \<Rightarrow>
             (let p_classes = dict_get p ''classes'' in
              if truthy p_classes then
                (case str_join '' '' p_classes of Some s \<Rightarrow> PStr s | None \<Rightarrow> PNone)
              else PNone)
         | _ \<Rightarrow> PNone)
      else PNone)"

definition parent_description_value :: "pydict \<Rightarrow> pyval" where
  "parent_description_value data_dict =
     (let parent_info = dict_get data_dict ''parent'' in
      if truthy parent_info then
        (case parent_info of
           PDict p \<Rightarrow>
             (let desc = dict_get_default p ''tag'' (PStr ''element'');
                  parent_id = dict_get p ''id'';
                  parent_classes = dict_get p ''classes''
              in if truthy parent_id then
                   PStr (py_str desc @ '' with ID '' @ [CHR 0x22] @ py_str parent_id @ [CHR 0x22])
                 else if truthy parent_classes then
                   (case str_join '' '' parent_classes of
                      Some s \<Rightarrow> PStr (py_str desc @ '' with classes '' @ [CHR 0x22] @ s @ [CHR 0x22])
                    | None \<Rightarrow> PNone)
                 else PStr (''parent '' @ py_str desc))
         | _ \<Rightarrow> PNone)
      else PNone)"

definition href_value :: "pydict \<Rightarrow> pyval" where
  "href_value data_dict =
     (let href = dict_get_default data_dict ''href'' (PStr '''') in
      if truthy href then
        (case href of
           PStr h \<Rightarrow>
             (let h1 = last (str_split1 ''/'' (last (str_split ''//'' h)));
                  h2 = hd (str_split ''?'' (str_rstrip ''/'' h1))
              in PStr h2)
         | _ \<Rightarrow> PNone)
      else PNone)"

text \<open>
  The loop over the dotted path; \<open>None\<close> is one of its two early \<^verbatim>\<open>return None\<close>.
\<close>

fun follow_keys :: "string list \<Rightarrow> pyval \<Rightarrow> pyval option" where
  "follow_keys [] current_value = Some current_value"
| "follow_keys (key # keys) current_value =
     (case current_value of
        PDict d \<Rightarrow>
          (let v = dict_get d key in if v = PNone then None else follow_keys keys v)
      | _ \<Rightarrow> None)"

definition standard_value :: "pydict \<Rightarrow> string \<Rightarrow> pyval" where
  "standard_value data_dict key_path =
     (case follow_keys (str_split ''.'' key_path) (PDict data_dict) of
        None \<Rightarrow> PNone
      | Some current_value \<Rightarrow>
          (case current_value of
             PList xs \<Rightarrow>
               (if key_path = ''classes'' then
                  (if xs \<noteq> [] then
                     (case str_join '' '' current_value of Some s \<Rightarrow> PStr s | None \<Rightarrow> PNone)
                   else PNone)
                else current_value)
           | _ \<Rightarrow> current_value))"

definition get_nested_value :: "pydict \<Rightarrow> string \<Rightarrow> pyval" where
  "get_nested_value data_dict key_path =
     (if key_path = ''sibling_text'' then sibling_text_value data_dict
      else if key_path = ''parent_classes'' then parent_classes_value data_dict
      else if key_path = ''parent_description'' then parent_description_value data_dict
      else if key_path = ''href'' then href_value data_dict
      else standard_value data_dict key_path)"

section \<open>The uniqueness resolver: \<^verbatim>\<open>add_uniqueness_context\<close>\<close>

text \<open>
  The function is followed on the list of records it returns. The records of the argument
  are taken as separate objects, as the extractor builds them (a new dictionary for each
  record), so that writing a field into one record changes no other record. A list that
  holds one dictionary object at two positions is outside the model: there the source
  writes the tracker twice into the same object (lines 895 and 896), \<^verbatim>\<open>deepcopy\<close> keeps the
  sharing, and the second \<^verbatim>\<open>pop('_original_index')\<close> raises \<^verbatim>\<open>KeyError\<close> (line 973). What the
  call leaves behind in the argument list itself is outside the model too. For these reasons
  the properties below are stated for the calls that return a list; none of them says that
  a call returns.
\<close>

subsection \<open>Grouping with \<^verbatim>\<open>defaultdict(list)\<close>\<close>

text \<open>
  A dictionary key must be hashable: lists and dictionaries are not, and using one as a
  key raises \<^verbatim>\<open>TypeError\<close> outside the \<^verbatim>\<open>try\<close> block of \<^verbatim>\<open>get_nested_value\<close>. Keys are
  compared with \<^verbatim>\<open>==\<close>, under which \<^verbatim>\<open>True\<close> and \<^verbatim>\<open>1\<close> (and \<^verbatim>\<open>False\<close> and \<^verbatim>\<open>0\<close>) are the same
  key. The dictionary keeps the key that was inserted first, and its items in the order
  of first insertion.
\<close>

fun hashable :: "pyval \<Rightarrow> bool" where
  "hashable (PList xs) = False"
| "hashable (PDict d) = False"
| "hashable _ = True"

fun hash_key :: "pyval \<Rightarrow> pyval" where
  "hash_key (PBool b) = PInt (if b then 1 else 0)"
| "hash_key v = v"

definition py_eq :: "pyval \<Rightarrow> pyval \<Rightarrow> bool" where
  "py_eq a b = (hash_key a = hash_key b)"

type_synonym groups = "(pyval \<times> pydict list) list"

text \<open>\<^verbatim>\<open>groups[value].append(element)\<close>\<close>

fun group_append :: "pyval \<Rightarrow> pydict \<Rightarrow> groups \<Rightarrow> groups" where
  "group_append v e [] = [(v, [e])]"
| "group_append v e ((k, es) # g) =
     (if py_eq k v then (k, es @ [e]) # g else (k, es) # group_append v e g)"

text \<open>
  The two grouping loops (lines 900 to 903 and 928 to 931): each element is filed under
  its derived value for \<open>key_path\<close>.
\<close>

fun group_by_value :: "string \<Rightarrow> pydict list \<Rightarrow> groups \<Rightarrow> error + groups" where
  "group_by_value key_path [] g = Inr g"
| "group_by_value key_path (element # elements) g =
     (let v = get_nested_value element key_path in
      if hashable v then group_by_value key_path elements (group_append v element g)
      else Inl TypeError)"

subsection \<open>The tracker \<^verbatim>\<open>_original_index\<close> and the result list\<close>

text \<open>Lines 895 and 896: every element gets its position under the key \<^verbatim>\<open>_original_index\<close>.\<close>

fun add_original_index :: "nat \<Rightarrow> pydict list \<Rightarrow> pydict list" where
  "add_original_index i [] = []"
| "add_original_index i (element # elements) =
     dict_set element ''_original_index'' (PInt (int i)) # add_original_index (Suc i) elements"

text \<open>
  Reading the tracker back (\<^verbatim>\<open>element['_original_index']\<close>) and using it as a list index:
  a missing key raises \<^verbatim>\<open>KeyError\<close>, a value that is not an integer \<^verbatim>\<open>TypeError\<close>.
\<close>

definition original_index :: "pydict \<Rightarrow> error + int" where
  "original_index element =
     (case dict_item element ''_original_index'' of
        Inl err \<Rightarrow> Inl err
      | Inr (PInt i) \<Rightarrow> Inr i
      | Inr (PBool b) \<Rightarrow> Inr (if b then 1 else 0)
      | Inr _ \<Rightarrow> Inl TypeError)"

text \<open>\<^verbatim>\<open>xs[i] = v\<close>: a negative index counts from the end, one out of range raises.\<close>

definition list_assign :: "'a list \<Rightarrow> int \<Rightarrow> 'a \<Rightarrow> error + 'a list" where
  "list_assign xs i v =
     (let n = int (length xs); j = (if i < 0 then n + i else i)
      in if 0 \<le> j \<and> j < n then Inr (xs[nat j := v]) else Inl IndexError)"

text \<open>
  \<^verbatim>\<open>original_idx = element.pop('_original_index')\<close> followed by
  \<^verbatim>\<open>processed_elements_data[original_idx] = element\<close> (lines 912 and 913, 973 to 975).
\<close>

definition store_element :: "pydict \<Rightarrow> pydict option list \<Rightarrow> error + pydict option list" where
  "store_element element processed_elements_data =
     (case original_index element of
        Inl err \<Rightarrow> Inl err
      | Inr original_idx \<Rightarrow>
          list_assign processed_elements_data original_idx
            (Some (dict_pop element ''_original_index'')))"

subsection \<open>Resolving one ambiguous group\<close>

text \<open>Lines 943 to 959: the context written into a resolved element.\<close>

definition level_value :: "string \<Rightarrow> pyval \<Rightarrow> pyval" where
  "level_value level v = PDict [(''level'', PStr level), (''value'', v)]"

definition assign_context :: "string \<Rightarrow> string \<Rightarrow> pyval \<Rightarrow> pydict \<Rightarrow> pydict" where
  "assign_context primary_key context_level_key context_value resolved_element =
     (if context_level_key = ''id'' \<and> primary_key = ''text'' then
        (let href = get_nested_value resolved_element ''href'' in
         if truthy href then
           dict_set resolved_element ''uniqueness_context'' (level_value ''href'' href)
         else
           dict_set resolved_element ''uniqueness_context''
             (level_value context_level_key context_value))
      else
        dict_set resolved_element ''uniqueness_context''
          (level_value context_level_key context_value))"

text \<open>
  Lines 934 to 966, the loop over \<^verbatim>\<open>subgroups_at_this_level.items()\<close>. The state is
  \<^verbatim>\<open>processed_elements_data\<close>, \<^verbatim>\<open>resolved_in_this_group\<close> and
  \<^verbatim>\<open>elements_still_ambiguous_next\<close>.
\<close>

type_synonym level_state = "pydict option list \<times> (int \<times> string) list \<times> pydict list"

fun check_subgroups :: "string \<Rightarrow> string \<Rightarrow> groups \<Rightarrow> level_state \<Rightarrow> error + level_state" where
  "check_subgroups primary_key context_level_key [] st = Inr st"
| "check_subgroups primary_key context_level_key ((context_value, subgroup) # rest)
       (processed_elements_data, resolved_in_this_group, elements_still_ambiguous_next) =
     (if length subgroup = 1 then
        (let resolved_element = hd subgroup in
         case original_index resolved_element of
           Inl err \<Rightarrow> Inl err
         | Inr original_idx \<Rightarrow>
             if original_idx \<notin> fst ` set resolved_in_this_group then
               (let resolved_element' =
                      (if context_value \<noteq> PNone then
                         assign_context primary_key context_level_key context_value resolved_element
                       else resolved_element)
                in case list_assign processed_elements_data original_idx
                          (Some (dict_pop resolved_element' ''_original_index'')) of
                     Inl err \<Rightarrow> Inl err
                   | Inr processed' \<Rightarrow>
                       check_subgroups primary_key context_level_key rest
                         (processed', (original_idx, context_level_key) # resolved_in_this_group,
                          elements_still_ambiguous_next))
             else
               check_subgroups primary_key context_level_key rest
                 (processed_elements_data, resolved_in_this_group, elements_still_ambiguous_next))
      else
        check_subgroups primary_key context_level_key rest
          (processed_elements_data, resolved_in_this_group,
           elements_still_ambiguous_next @ subgroup))"

text \<open>
  Lines 920 to 969, the loop over \<^verbatim>\<open>context_hierarchy\<close>; it stops early once nothing is
  ambiguous. It returns the result list and the elements that are still ambiguous.
\<close>

fun resolve_levels ::
  "string \<Rightarrow> string list \<Rightarrow> pydict list \<Rightarrow> pydict option list \<Rightarrow> (int \<times> string) list
     \<Rightarrow> error + (pydict option list \<times> pydict list)" where
  "resolve_levels primary_key [] ambiguous_subgroup processed resolved =
     Inr (processed, ambiguous_subgroup)"
| "resolve_levels primary_key (context_level_key # levels) ambiguous_subgroup processed resolved =
     (if ambiguous_subgroup = [] then Inr (processed, ambiguous_subgroup)
      else
        (case group_by_value context_level_key ambiguous_subgroup [] of
           Inl err \<Rightarrow> Inl err
         | Inr subgroups_at_this_level \<Rightarrow>
             (case check_subgroups primary_key context_level_key subgroups_at_this_level
                     (processed, resolved, []) of
                Inl err \<Rightarrow> Inl err
              | Inr (processed', resolved', elements_still_ambiguous_next) \<Rightarrow>
                  resolve_levels primary_key levels elements_still_ambiguous_next
                    processed' resolved')))"

text \<open>Lines 972 to 975: what is still ambiguous is stored without a context.\<close>

fun store_remaining :: "pydict list \<Rightarrow> pydict option list \<Rightarrow> error + pydict option list" where
  "store_remaining [] processed = Inr processed"
| "store_remaining (ambiguous_element # rest) processed =
     (case store_element ambiguous_element processed of
        Inl err \<Rightarrow> Inl err
      | Inr processed' \<Rightarrow> store_remaining rest processed')"

text \<open>
  Lines 908 to 975, the loop over \<^verbatim>\<open>initial_groups.items()\<close>. \<^verbatim>\<open>copy.deepcopy\<close> of a group
  is the group itself, since the model passes values.
\<close>

fun process_groups ::
  "string \<Rightarrow> string list \<Rightarrow> groups \<Rightarrow> pydict option list \<Rightarrow> error + pydict option list" where
  "process_groups primary_key context_hierarchy [] processed = Inr processed"
| "process_groups primary_key context_hierarchy ((primary_value, grp) # rest) processed =
     (if length grp = 1 then
        (case store_element (hd grp) processed of
           Inl err \<Rightarrow> Inl err
         | Inr processed' \<Rightarrow> process_groups primary_key context_hierarchy rest processed')
      else
        (case resolve_levels primary_key context_hierarchy grp processed [] of
           Inl err \<Rightarrow> Inl err
         | Inr (processed', ambiguous_subgroup) \<Rightarrow>
             (case store_remaining ambiguous_subgroup processed' of
                Inl err \<Rightarrow> Inl err
              | Inr processed'' \<Rightarrow>
                  process_groups primary_key context_hierarchy rest processed'')))"

text \<open>
  The whole function. The last line keeps the entries of the result list that are not
  \<^verbatim>\<open>None\<close>.
\<close>

definition add_uniqueness_context ::
  "pydict list \<Rightarrow> string \<Rightarrow> string list \<Rightarrow> error + pydict list" where
  "add_uniqueness_context elements_data primary_key context_hierarchy =
     (let indexed = add_original_index 0 elements_data in
      case group_by_value primary_key indexed [] of
        Inl err \<Rightarrow> Inl err
      | Inr initial_groups \<Rightarrow>
          (case process_groups primary_key context_hierarchy initial_groups
                  (replicate (length elements_data) None) of
             Inl err \<Rightarrow> Inl err
           | Inr processed_elements_data \<Rightarrow>
               Inr (List.map_filter (\<lambda>elem. elem) processed_elements_data)))"

section \<open>The element extractor: \<^verbatim>\<open>parse_html_for_elements\<close>\<close>

subsection \<open>The parsed document\<close>

text \<open>
  \<^verbatim>\<open>BeautifulSoup(html_content, 'html.parser')\<close> is an external library: the tree it builds
  is taken as it is. A node is a text string, a comment (or another special string, which
  \<^verbatim>\<open>get_text\<close> skips), or a tag with its name, its attributes and its contents. The
  document itself is a tag named \<^verbatim>\<open>[document]\<close>. Equality of nodes is structural, as
  \<^verbatim>\<open>==\<close> on tags is.
\<close>

datatype node =
    NavigableString string
  | Comment string
  | Tag string pydict "node list"

fun is_tag :: "node \<Rightarrow> bool" where
  "is_tag (Tag n a cs) = True"
| "is_tag _ = False"

text \<open>\<^verbatim>\<open>x.name\<close> (\<^verbatim>\<open>None\<close> for a string, read here as the empty name), \<^verbatim>\<open>x.attrs\<close>, \<^verbatim>\<open>x.contents\<close>.\<close>

fun node_name :: "node \<Rightarrow> string" where
  "node_name (Tag n a cs) = n"
| "node_name _ = []"

fun attrs :: "node \<Rightarrow> pydict" where
  "attrs (Tag n a cs) = a"
| "attrs _ = []"

fun contents :: "node \<Rightarrow> node list" where
  "contents (Tag n a cs) = cs"
| "contents _ = []"

text \<open>\<^verbatim>\<open>tag.get(key)\<close> and \<^verbatim>\<open>tag.get(key, default)\<close> read the attributes.\<close>

definition tag_get :: "node \<Rightarrow> string \<Rightarrow> pyval" where
  "tag_get t k = dict_get (attrs t) k"

definition tag_get_default :: "node \<Rightarrow> string \<Rightarrow> pyval \<Rightarrow> pyval" where
  "tag_get_default t k dflt = dict_get_default (attrs t) k dflt"

text \<open>
  \<^verbatim>\<open>s.strip()\<close> removes leading and trailing whitespace: the code points 9 to 13, 28 to 32,
  133 and 160.
\<close>

definition is_space :: "char \<Rightarrow> bool" where
  "is_space c = (let n = (of_char c :: nat) in (9 \<le> n \<and> n \<le> 13) \<or> (28 \<le> n \<and> n \<le> 32) \<or> n = 133 \<or> n = 160)"

definition str_strip :: "string \<Rightarrow> string" where
  "str_strip s = rev (dropWhile is_space (rev (dropWhile is_space s)))"

text \<open>
  \<^verbatim>\<open>tag.get_text(strip=True)\<close>: the text strings below the tag in document order, each
  stripped, the empty ones dropped, joined without separator.
\<close>

fun all_strings :: "node \<Rightarrow> string list" where
  "all_strings (NavigableString s) = [s]"
| "all_strings (Comment s) = []"
| "all_strings (Tag n a cs) = concat (map all_strings cs)"

definition get_text_strip :: "node \<Rightarrow> string" where
  "get_text_strip t = concat (filter (\<lambda>s. s \<noteq> []) (map str_strip (all_strings t)))"

text \<open>
  A node found in the tree comes with what the navigation of the library reads from it:
  \<^verbatim>\<open>.parents\<close> (nearest first, the document last), \<^verbatim>\<open>.previous_siblings\<close> (nearest first)
  and \<^verbatim>\<open>.next_siblings\<close>.
\<close>

record located =
  here :: node
  parents :: "node list"
  previous_siblings :: "node list"
  next_siblings :: "node list"

text \<open>\<^verbatim>\<open>tag.descendants\<close>: every node below the tag, in document order.\<close>

fun descendants :: "node list \<Rightarrow> node \<Rightarrow> located list"
  and descendants_list :: "node list \<Rightarrow> node list \<Rightarrow> node list \<Rightarrow> located list" where
  "descendants ups (Tag n a cs) = descendants_list (Tag n a cs # ups) [] cs"
| "descendants ups (NavigableString s) = []"
| "descendants ups (Comment s) = []"
| "descendants_list ups ls [] = []"
| "descendants_list ups ls (c # cs) =
     \<lparr>here = c, parents = ups, previous_siblings = ls, next_siblings = cs\<rparr>
       # descendants ups c @ descendants_list ups (c # ls) cs"

text \<open>\<^verbatim>\<open>soup.find_all(names)\<close>: the tags below the document whose name is in the list.\<close>

definition find_all :: "string list \<Rightarrow> node \<Rightarrow> located list" where
  "find_all names soup =
     filter (\<lambda>l. is_tag (here l) \<and> node_name (here l) \<in> set names) (descendants [] soup)"

text \<open>
  \<^verbatim>\<open>for t in soup(names): t.decompose()\<close> removes every tag with one of the names, with all
  that is below it.
\<close>

fun decompose :: "string list \<Rightarrow> node \<Rightarrow> node" where
  "decompose names (Tag n a cs) =
     Tag n a (map (decompose names)
       (filter (\<lambda>c. \<not> (is_tag c \<and> node_name c \<in> set names)) cs))"
| "decompose names t = t"

text \<open>
  \<^verbatim>\<open>x.find_previous_sibling()\<close> and \<^verbatim>\<open>x.find_next_sibling()\<close> without arguments give the
  nearest sibling that is a tag; calling them again on the result walks through the
  siblings that are tags. \<^verbatim>\<open>tag.find_all(recursive=False)\<close> gives the children that are
  tags.
\<close>

definition tag_siblings :: "node list \<Rightarrow> node list" where
  "tag_siblings siblings = filter is_tag siblings"

definition tag_children :: "node \<Rightarrow> node list" where
  "tag_children t = filter is_tag (contents t)"

subsection \<open>The headings loop\<close>

text \<open>Lines 140 to 150: the summary of an ancestor.\<close>

definition parent_info :: "node \<Rightarrow> pyval" where
  "parent_info current =
     PDict [(''tag'', PStr (node_name current)),
            (''attributes'', PDict (attrs current)),
            (''classes'', tag_get_default current ''class'' (PList [])),
            (''id'', tag_get current ''id''),
            (''aria_label'', tag_get current ''aria-label''),
            (''role'', tag_get current ''role''),
            (''aria_expanded'', tag_get current ''aria-expanded''),
            (''aria_controls'', tag_get current ''aria-controls''),
            (''aria_labelledby'', tag_get current ''aria-labelledby'')]"

text \<open>Lines 167 to 174, 181 to 188 and 194 to 201: the summary of a sibling or child.\<close>

definition sibling_info :: "node \<Rightarrow> pyval" where
  "sibling_info sibling =
     PDict [(''tag'', PStr (node_name sibling)),
            (''attributes'', PDict (attrs sibling)),
            (''classes'', tag_get_default sibling ''class'' (PList [])),
            (''id'', tag_get sibling ''id''),
            (''text'', PStr (get_text_strip sibling)),
            (''role'', tag_get sibling ''role'')]"

text \<open>Line 158: the test for an interactive ancestor.\<close>

definition is_interactive :: "node \<Rightarrow> bool" where
  "is_interactive current \<longleftrightarrow>
     node_name current \<in> set [''button'', ''a'']
     \<or> tag_get current ''role'' \<in> set [PStr ''button'', PStr ''tab'', PStr ''menuitem'']"

text \<open>
  Lines 138 to 161, \<^verbatim>\<open>while current and current.name\<close>: the loop follows \<^verbatim>\<open>.parent\<close>, that
  is, it runs through \<^verbatim>\<open>.parents\<close>. The state is \<^verbatim>\<open>dom_context["parent"]\<close>,
  \<^verbatim>\<open>dom_context["ancestors"]\<close> and \<^verbatim>\<open>dom_context["interactive_parents"]\<close>;
  \<open>heading_parent\<close> is \<^verbatim>\<open>heading.parent\<close>, compared with \<^verbatim>\<open>==\<close>.
\<close>

fun capture_ancestors ::
  "node option \<Rightarrow> node list \<Rightarrow> pyval \<times> pyval list \<times> pyval list \<Rightarrow> pyval \<times> pyval list \<times> pyval list" where
  "capture_ancestors heading_parent [] st = st"
| "capture_ancestors heading_parent (current # up) (parent, ancestors, interactive_parents) =
     (if node_name current = [] then (parent, ancestors, interactive_parents)
      else
        (let info = parent_info current;
             parent' = (if Some current = heading_parent then info else parent);
             ancestors' = (if Some current = heading_parent then ancestors else ancestors @ [info]);
             interactive' = (if is_interactive current then interactive_parents @ [info]
                             else interactive_parents)
         in capture_ancestors heading_parent up (parent', ancestors', interactive')))"

text \<open>
  Lines 164 to 176 and 178 to 190, \<^verbatim>\<open>while sibling and len(...) < 3\<close>, over the siblings
  that are tags.
\<close>

fun capture_siblings :: "node list \<Rightarrow> pyval list \<Rightarrow> pyval list" where
  "capture_siblings [] captured = captured"
| "capture_siblings (sibling # rest) captured =
     (if length captured < 3 then
        capture_siblings rest
          (if node_name sibling \<noteq> [] then captured @ [sibling_info sibling] else captured)
      else captured)"

text \<open>Lines 117 to 208: the record of one heading.\<close>

definition heading_record :: "located \<Rightarrow> string \<Rightarrow> int \<Rightarrow> pydict" where
  "heading_record heading text heading_index =
     (let element =
            PDict [(''tag'', PStr (node_name (here heading))),
                   (''attributes'', PDict (attrs (here heading))),
                   (''classes'', tag_get_default (here heading) ''class'' (PList [])),
                   (''id'', tag_get (here heading) ''id''),
                   (''aria_label'', tag_get (here heading) ''aria-label''),
                   (''text'', PStr text),
                   (''role'', tag_get (here heading) ''role'')];
          heading_parent = (case parents heading of [] \<Rightarrow> None | p # _ \<Rightarrow> Some p);
          (parent, ancestors, interactive_parents) =
             capture_ancestors heading_parent (parents heading) (PNone, [], []);
          previous = capture_siblings (tag_siblings (previous_siblings heading)) [];
          next = capture_siblings (tag_siblings (next_siblings heading)) [];
          children = map sibling_info (tag_children (here heading));
          dom_context =
            PDict [(''element'', element),
                   (''parent'', parent),
                   (''ancestors'', PList ancestors),
                   (''siblings'', PDict [(''previous'', PList previous), (''next'', PList next)]),
                   (''children'', PList children),
                   (''interactive_parents'', PList interactive_parents)]
      in [(''dom_context'', dom_context), (''sequential_index'', PInt heading_index)])"

text \<open>
  The dictionary \<^verbatim>\<open>elements\<close> has a fixed set of keys; it is a function from the key to
  the list collected so far. The state of the extraction is this dictionary and
  \<^verbatim>\<open>element_count\<close>.
\<close>

type_synonym elements = "string \<Rightarrow> pydict list"

definition append_to :: "elements \<Rightarrow> string \<Rightarrow> pydict \<Rightarrow> elements" where
  "append_to els category r = els(category := els category @ [r])"

text \<open>Lines 110 to 211: the headings loop, with its counter \<^verbatim>\<open>heading_index\<close>.\<close>

fun heading_loop :: "int \<Rightarrow> located list \<Rightarrow> elements \<times> int \<times> int \<Rightarrow> elements \<times> int \<times> int" where
  "heading_loop max_elements [] st = st"
| "heading_loop max_elements (heading # rest) (els, heading_index, element_count) =
     (if element_count \<ge> max_elements then (els, heading_index, element_count)
      else
        (let text = get_text_strip (here heading) in
         if text \<noteq> [] then
           heading_loop max_elements rest
             (append_to els ''headings'' (heading_record heading text heading_index),
              heading_index + 1, element_count + 1)
         else heading_loop max_elements rest (els, heading_index, element_count)))"

subsection \<open>The other loops\<close>

text \<open>
  The loops over paragraphs, links, buttons, images, icons and forms have the shape of
  the headings loop: the budget test first, then a body that decides whether the
  candidate qualifies and builds its record, then the append and the increment of
  \<^verbatim>\<open>element_count\<close>. Their bodies neither read nor write \<^verbatim>\<open>element_count\<close>, and the indices
  they number the records with count the records appended before, so what a candidate
  yields does not depend on the budget. The bodies are not modelled: what they yield, for
  each candidate in the order of \<^verbatim>\<open>find_all\<close>, is a parameter of the model; \<open>None\<close> is a
  candidate that is skipped.
\<close>

record loop_bodies =
  p_results :: "pydict option list"
  a_results :: "pydict option list"
  btn_results :: "pydict option list"
  img_results :: "pydict option list"
  tag_results :: "pydict option list"
  svg_results :: "pydict option list"
  form_results :: "pydict option list"

fun collect :: "int \<Rightarrow> string \<Rightarrow> pydict option list \<Rightarrow> elements \<times> int \<Rightarrow> elements \<times> int" where
  "collect max_elements category [] st = st"
| "collect max_elements category (candidate # rest) (els, element_count) =
     (if element_count \<ge> max_elements then (els, element_count)
      else
        (case candidate of
           None \<Rightarrow> collect max_elements category rest (els, element_count)
         | Some r \<Rightarrow>
             collect max_elements category rest (append_to els category r, element_count + 1)))"

text \<open>
  The two icon loops (lines 537 to 576 and 579 to 615) test the budget once more after
  the increment.
\<close>

fun collect_icons :: "int \<Rightarrow> string \<Rightarrow> pydict option list \<Rightarrow> elements \<times> int \<Rightarrow> elements \<times> int" where
  "collect_icons max_elements category [] st = st"
| "collect_icons max_elements category (candidate # rest) (els, element_count) =
     (if element_count \<ge> max_elements then (els, element_count)
      else
        (case candidate of
           None \<Rightarrow> collect_icons max_elements category rest (els, element_count)
         | Some r \<Rightarrow>
             (if element_count + 1 \<ge> max_elements
              then (append_to els category r, element_count + 1)
              else collect_icons max_elements category rest
                     (append_to els category r, element_count + 1))))"

text \<open>Lines 803 to 808: one summary record for each semantic tag that occurs.\<close>

definition semantic_tags :: "string list" where
  "semantic_tags = [''header'', ''footer'', ''nav'', ''main'', ''section'', ''article'', ''aside'']"

definition semantic_result :: "node \<Rightarrow> string \<Rightarrow> pydict option" where
  "semantic_result soup tag_name =
     (let found_tags = find_all [tag_name] soup in
      if found_tags \<noteq> [] then
        Some [(''tag'', PStr tag_name), (''count'', PInt (int (length found_tags)))]
      else None)"

subsection \<open>The whole function\<close>

text \<open>
  The keys of \<^verbatim>\<open>elements\<close> in the order of the dictionary literal (lines 87 to 97), and
  \<^verbatim>\<open>{k: v for k, v in elements.items() if v}\<close>.
\<close>

definition category_keys :: "string list" where
  "category_keys = [''headings'', ''paragraphs'', ''links'', ''buttons'', ''inputs'',
                    ''images_and_logos'', ''icons'', ''forms'', ''semantic_elements'']"

definition non_empty :: "elements \<Rightarrow> pydict" where
  "non_empty els =
     map (\<lambda>k. (k, PList (map PDict (els k)))) (filter (\<lambda>k. els k \<noteq> []) category_keys)"

text \<open>\<^verbatim>\<open>if element_count >= max_elements: return ...\<close> after a loop.\<close>

definition budget_reached :: "int \<Rightarrow> elements \<times> int \<Rightarrow> bool" where
  "budget_reached max_elements st = (snd st \<ge> max_elements)"

text \<open>
  The function, with the parser and the bodies of the other loops as parameters. The
  early returns are lines 287, 411, 471, 533, 616, 800 and 810; the menu lookups of lines
  291 to 303 do not reach the result.
\<close>

definition parse_html_for_elements ::
  "(string \<Rightarrow> node) \<Rightarrow> (node \<Rightarrow> string \<Rightarrow> loop_bodies) \<Rightarrow> string \<Rightarrow> string \<Rightarrow> int \<Rightarrow> pydict" where
  "parse_html_for_elements html_parser bodies html_content base_url max_elements =
     (if startswith html_content ''Error fetching URL''
      then [(''error'', PStr html_content)]
      else
        (let soup = decompose [''script'', ''style''] (html_parser html_content);
             b = bodies soup base_url;
             (els1, heading_index, count1) =
                heading_loop max_elements
                  (find_all [''h1'', ''h2'', ''h3'', ''h4'', ''h5'', ''h6'', ''h7''] soup)
                  (\<lambda>k. [], 0, 0);
             st2 = collect max_elements ''paragraphs'' (p_results b) (els1, count1)
         in if budget_reached max_elements st2 then non_empty (fst st2)
         else
           (let st3 = collect max_elements ''links'' (a_results b) st2
            in if budget_reached max_elements st3 then non_empty (fst st3)
            else
              (let st4 = collect max_elements ''buttons'' (btn_results b) st3
               in if budget_reached max_elements st4 then non_empty (fst st4)
               else
                 (let st5 = collect max_elements ''images_and_logos'' (img_results b) st4
                  in if budget_reached max_elements st5 then non_empty (fst st5)
                  else
                    (let st6 = collect_icons max_elements ''icons'' (tag_results b) st5;
                         st7 = collect_icons max_elements ''icons'' (svg_results b) st6
                     in if budget_reached max_elements st7 then non_empty (fst st7)
                     else
                       (let st8 = collect max_elements ''forms'' (form_results b) st7
                        in if budget_reached max_elements st8 then non_empty (fst st8)
                        else
                          (let st9 = collect max_elements ''semantic_elements''
                                       (map (semantic_result soup) semantic_tags) st8
                           in non_empty (fst st9)))))))))"

section \<open>Notions used to state the properties\<close>

text \<open>
  None of the definitions of this section is part of the program. They name what the loops
  compute, so that the theorems below can speak about it. For \<^verbatim>\<open>add_uniqueness_context\<close>:
  the tracker of a record, the subgroup of a record at a level, the records still ambiguous
  when a level is evaluated, and the record the resolver stores in the end. For
  \<^verbatim>\<open>parse_html_for_elements\<close>: the records each loop appends when the budget does not stop
  it, the cut of these by the budget, and the records of a result. The theorems relate each
  of them to the functions defined above; the example values at the end are the inputs on
  which the theorems are evaluated.
\<close>

text \<open>
  The tracker of a record: the number the resolver wrote under \<^verbatim>\<open>_original_index\<close>
  (0 when the field is absent or is not a number).
\<close>

definition tracker :: "pydict \<Rightarrow> nat" where
  "tracker e = (case map_of e ''_original_index'' of Some (PInt i) \<Rightarrow> nat i | _ \<Rightarrow> 0)"

text \<open>
  A record is tracked below \<open>n\<close> when its tracker field holds a position of a list of
  \<open>n\<close> records. Every record the loops handle is tracked below the length of the input.
\<close>

definition tracked :: "nat \<Rightarrow> pydict \<Rightarrow> bool" where
  "tracked n e = (\<exists>i<n. map_of e ''_original_index'' = Some (PInt (int i)))"

text \<open>
  The subgroup of \<open>e\<close> at level \<open>l\<close> among the records \<open>A\<close>: the records of \<open>A\<close> whose derived
  value is the same dictionary key as that of \<open>e\<close>, in the order of \<open>A\<close>.
\<close>

definition subgroup_of :: "string \<Rightarrow> pydict list \<Rightarrow> pydict \<Rightarrow> pydict list" where
  "subgroup_of l A e = filter (\<lambda>e'. py_eq (get_nested_value e' l) (get_nested_value e l)) A"

text \<open>
  What the grouping loop maintains: \<open>g\<close> is the dictionary \<^verbatim>\<open>defaultdict(list)\<close> reached after
  filing the records \<open>P\<close> under their derived value at \<open>l\<close>. Its keys are pairwise different
  dictionary keys, each entry holds exactly the records of \<open>P\<close> with that key, in order, under
  the value of its first record, and every record of \<open>P\<close> is filed.
\<close>

definition grouped :: "string \<Rightarrow> pydict list \<Rightarrow> groups \<Rightarrow> bool" where
  "grouped l P g \<longleftrightarrow>
     distinct (map (hash_key \<circ> fst) g) \<and>
     (\<forall>k es. (k, es) \<in> set g \<longrightarrow>
        es \<noteq> [] \<and> filter (\<lambda>e. py_eq k (get_nested_value e l)) P = es
        \<and> get_nested_value (hd es) l = k) \<and>
     (\<forall>e \<in> set P. hash_key (get_nested_value e l) \<in> (hash_key \<circ> fst) ` set g)"

text \<open>
  Appending a record to the entry of its key, the step of the grouping loop seen on one entry.
\<close>

definition file_under :: "pyval \<Rightarrow> pydict \<Rightarrow> pyval \<times> pydict list \<Rightarrow> pyval \<times> pydict list" where
  "file_under v e ke = (if py_eq (fst ke) v then (fst ke, snd ke @ [e]) else ke)"

text \<open>
  The record stored for \<open>e\<close> when level \<open>l\<close> singles it out: the context is assigned unless the
  derived value is \<^verbatim>\<open>None\<close>, and the tracker is removed.
\<close>

definition resolved_form :: "string \<Rightarrow> string \<Rightarrow> pydict \<Rightarrow> pydict" where
  "resolved_form pk l e =
     dict_pop (if get_nested_value e l \<noteq> PNone then assign_context pk l (get_nested_value e l) e else e)
       ''_original_index''"

text \<open>
  The records of \<open>A\<close> that are still ambiguous after the levels \<open>ls\<close> have been evaluated in turn:
  a level keeps the records whose subgroup has more than one member.
\<close>

fun still_ambiguous :: "string list \<Rightarrow> pydict list \<Rightarrow> pydict list" where
  "still_ambiguous [] A = A"
| "still_ambiguous (l # ls) A =
     still_ambiguous ls (filter (\<lambda>e. length (subgroup_of l A e) \<noteq> 1) A)"

text \<open>
  The record stored for a member \<open>e\<close> of an ambiguous group \<open>A\<close>: its resolved form at the first
  level that singles it out among the records still ambiguous there, and \<open>e\<close> without the
  tracker when no level does.
\<close>

fun resolution :: "string \<Rightarrow> string list \<Rightarrow> pydict list \<Rightarrow> pydict \<Rightarrow> pydict" where
  "resolution pk [] A e = dict_pop e ''_original_index''"
| "resolution pk (l # ls) A e =
     (if length (subgroup_of l A e) = 1 then resolved_form pk l e
      else resolution pk ls (filter (\<lambda>e'. length (subgroup_of l A e') \<noteq> 1) A) e)"

text \<open>
  The record stored for a member \<open>e\<close> of a primary group \<open>es\<close>: a group of one is stored as it
  is, a larger one is resolved.
\<close>

definition outcome :: "string \<Rightarrow> string list \<Rightarrow> pydict list \<Rightarrow> pydict \<Rightarrow> pydict" where
  "outcome pk h es e =
     (if length es = 1 then dict_pop e ''_original_index'' else resolution pk h es e)"

text \<open>
  The record the resolver returns at the position of \<open>e\<close>, where \<open>ys\<close> is the input with the
  trackers written.
\<close>

definition final_record :: "string \<Rightarrow> string list \<Rightarrow> pydict list \<Rightarrow> pydict \<Rightarrow> pydict" where
  "final_record pk h ys e = outcome pk h (subgroup_of pk ys e) e"

text \<open>
  The members of the group \<open>G\<close> that are still ambiguous when level \<open>k\<close> of the hierarchy \<open>h\<close> is
  evaluated, that is after the levels \<open>0, \<dots>, k - 1\<close>.
\<close>

definition ambiguous_before :: "string list \<Rightarrow> pydict list \<Rightarrow> nat \<Rightarrow> pydict list" where
  "ambiguous_before h G k = still_ambiguous (take k h) G"

text \<open>
  Level \<open>k\<close> singles \<open>e\<close> out: \<open>e\<close> is still ambiguous when level \<open>k\<close> is evaluated, and its subgroup
  there has one member.
\<close>

definition alone_at :: "string list \<Rightarrow> pydict list \<Rightarrow> nat \<Rightarrow> pydict \<Rightarrow> bool" where
  "alone_at h G k e \<longleftrightarrow>
     e \<in> set (ambiguous_before h G k) \<and>
     length (subgroup_of (h ! k) (ambiguous_before h G k) e) = 1"

text \<open>
  The input records with the trackers written, as the first loop of the resolver leaves them.
\<close>

definition indexed :: "pydict list \<Rightarrow> pydict list" where
  "indexed xs = add_original_index 0 xs"

text \<open>
  The primary group of the record at position \<open>i\<close> of the input \<open>xs\<close>.
\<close>

definition primary_group :: "string \<Rightarrow> pydict list \<Rightarrow> nat \<Rightarrow> pydict list" where
  "primary_group pk xs i = subgroup_of pk (indexed xs) (indexed xs ! i)"

text \<open>
  Following a path of keys through nested dictionaries, with no default: \<open>None\<close> when a key
  is absent or when the path meets a value that is not a dictionary.
\<close>

fun lookup_path :: "string list \<Rightarrow> pyval \<Rightarrow> pyval option" where
  "lookup_path [] v = Some v"
| "lookup_path (k # ks) (PDict d) = (case map_of d k of None \<Rightarrow> None | Some v \<Rightarrow> lookup_path ks v)"
| "lookup_path (k # ks) _ = None"

text \<open>
  The keys \<^verbatim>\<open>get_nested_value\<close> treats specially before it follows a dotted path.
\<close>

definition composite_keys :: "string list" where
  "composite_keys = [''sibling_text'', ''parent_classes'', ''parent_description'', ''href'']"

text \<open>
  Example records, of the shape the extractor produces. Two paragraphs with the same text
  and no id, under parents with different ids.
\<close>

definition example_paragraphs :: "pydict list" where
  "example_paragraphs =
     [[(''text_snippet'', PStr ''Learn More''), (''id'', PNone),
       (''parent'', PDict [(''tag'', PStr ''div''), (''classes'', PList []), (''id'', PStr ''features'')])],
      [(''text_snippet'', PStr ''Learn More''), (''id'', PNone),
       (''parent'', PDict [(''tag'', PStr ''div''), (''classes'', PList []), (''id'', PStr ''pricing'')])]]"

text \<open>
  Three buttons with the same text and name: one with the id \<^verbatim>\<open>save\<close>, two without an id.
\<close>

definition example_buttons :: "pydict list" where
  "example_buttons =
     [[(''text'', PStr ''Submit''), (''id'', PStr ''save''), (''name'', PStr ''go'')],
      [(''text'', PStr ''Submit''), (''id'', PNone), (''name'', PStr ''go'')],
      [(''text'', PStr ''Submit''), (''id'', PNone), (''name'', PStr ''go'')]]"

text \<open>
  Two links with the same text, told apart by their id; both carry an href, and the href of
  the second is the root of its site.
\<close>

definition example_links :: "pydict list" where
  "example_links =
     [[(''text'', PStr ''Home''), (''id'', PStr ''top''), (''href'', PStr ''http://example.com/about'')],
      [(''text'', PStr ''Home''), (''id'', PStr ''logo''), (''href'', PStr ''http://example.com/'')]]"

text \<open>
  Three icon records with the same tag: two without a label, one with a label.
\<close>

definition example_icons :: "pydict list" where
  "example_icons =
     [[(''tag'', PStr ''svg''), (''aria_label'', PNone), (''title'', PStr ''Search'')],
      [(''tag'', PStr ''svg''), (''aria_label'', PNone), (''title'', PStr ''Menu'')],
      [(''tag'', PStr ''svg''), (''aria_label'', PStr ''Close'')]]"

text \<open>
  Two paragraphs with the same text, of which only the first has an id.
\<close>

definition example_lone :: "pydict list" where
  "example_lone =
     [[(''text_snippet'', PStr ''Read the terms''), (''id'', PStr ''terms'')],
      [(''text_snippet'', PStr ''Read the terms'')]]"

text \<open>
  Two links with the same text, told apart by their id; both carry an href with a path.
\<close>

definition example_nav_links :: "pydict list" where
  "example_nav_links =
     [[(''text'', PStr ''Products''), (''id'', PStr ''nav-products''), (''href'', PStr ''https://shop.example/products/'')],
      [(''text'', PStr ''Products''), (''id'', PStr ''footer-products''), (''href'', PStr ''/catalog?page=1'')]]"


text \<open>
  One record that already has a field named \<^verbatim>\<open>_original_index\<close>.
\<close>

definition example_tracked :: "pydict list" where
  "example_tracked = [[(''text'', PStr ''Home''), (''_original_index'', PInt 7)]]"

text \<open>
  Two icon records, the first without a label.
\<close>

definition example_single_None :: "pydict list" where
  "example_single_None =
     [[(''tag'', PStr ''i''), (''aria_label'', PNone), (''classes'', PList [PStr ''fa'', PStr ''fa-home''])],
      [(''tag'', PStr ''i''), (''aria_label'', PStr ''Close'')]]"

text \<open>
  One icon record without a label that has a field named \<^verbatim>\<open>_original_index\<close>.
\<close>

definition example_reserved :: "pydict list" where
  "example_reserved =
     [[(''tag'', PStr ''svg''), (''aria_label'', PNone), (''_original_index'', PInt 7)]]"

text \<open>
  Two links with the same text. The first has an empty id, an empty class list, an empty
  href, an empty next-sibling text and a parent without classes; the second has none of
  these fields.
\<close>

definition example_bare :: "pydict list" where
  "example_bare =
     [[(''text'', PStr ''Open''), (''id'', PStr ''''), (''classes'', PList []), (''href'', PStr ''''),
       (''parent'', PDict [(''tag'', PStr ''div''), (''classes'', PList []), (''id'', PNone)]),
       (''next_sibling_text'', PStr ''''), (''prev_sibling_text'', PNone)],
      [(''text'', PStr ''Open'')]]"

text \<open>
  The records a loop appends: a body that gives \<open>None\<close> appends nothing.
\<close>

definition yielded :: "pydict option list \<Rightarrow> pydict list" where
  "yielded candidates = List.map_filter (\<lambda>c. c) candidates"

text \<open>
  The heading tags of the document that have text, in document order.
\<close>

definition headings_with_text :: "node \<Rightarrow> located list" where
  "headings_with_text soup =
     filter (\<lambda>l. get_text_strip (here l) \<noteq> [])
       (find_all [''h1'', ''h2'', ''h3'', ''h4'', ''h5'', ''h6'', ''h7''] soup)"

text \<open>
  The records of the headings, numbered from \<open>i\<close>.
\<close>

fun numbered_headings :: "int \<Rightarrow> located list \<Rightarrow> pydict list" where
  "numbered_headings i [] = []"
| "numbered_headings i (l # ls) =
     heading_record l (get_text_strip (here l)) i # numbered_headings (i + 1) ls"

text \<open>
  The records the headings loop appends when the budget does not stop it.
\<close>

definition heading_records :: "node \<Rightarrow> pydict list" where
  "heading_records soup = numbered_headings 0 (headings_with_text soup)"

text \<open>
  The nine loops of the extractor in the order they run, each with the category it fills
  and the records it appends when the budget does not stop it.
\<close>

definition stages :: "node \<Rightarrow> loop_bodies \<Rightarrow> (string \<times> pydict list) list" where
  "stages soup b =
     [(''headings'', heading_records soup),
      (''paragraphs'', yielded (p_results b)),
      (''links'', yielded (a_results b)),
      (''buttons'', yielded (btn_results b)),
      (''images_and_logos'', yielded (img_results b)),
      (''icons'', yielded (tag_results b)),
      (''icons'', yielded (svg_results b)),
      (''forms'', yielded (form_results b)),
      (''semantic_elements'', yielded (map (semantic_result soup) semantic_tags))]"

text \<open>
  Cutting the stages at a budget of \<open>n\<close> records: each stage keeps what the budget left by the
  stages before it allows.
\<close>

fun budgeted :: "nat \<Rightarrow> (string \<times> pydict list) list \<Rightarrow> (string \<times> pydict list) list" where
  "budgeted n [] = []"
| "budgeted n ((c, rs) # rest) = (c, take n rs) # budgeted (n - length (take n rs)) rest"

text \<open>
  The records of one category: the records of its stages, in the order of the stages.
\<close>

definition collected :: "string \<Rightarrow> (string \<times> pydict list) list \<Rightarrow> pydict list" where
  "collected c st = concat (map snd (filter (\<lambda>s. fst s = c) st))"

text \<open>
  The records a result holds under one category.
\<close>

definition records_of :: "pydict \<Rightarrow> string \<Rightarrow> pyval list" where
  "records_of result category =
     (case map_of result category of Some (PList rs) \<Rightarrow> rs | _ \<Rightarrow> [])"



text \<open>
  Running one stage from a state of the extractor: the records the budget \<open>N\<close> allows are
  appended to the category and counted.
\<close>

definition add_stage :: "int \<Rightarrow> string \<times> pydict list \<Rightarrow> elements \<times> int \<Rightarrow> elements \<times> int" where
  "add_stage N s st =
     ((fst st)(fst s := fst st (fst s) @ take (nat (N - snd st)) (snd s)),
      snd st + int (length (take (nat (N - snd st)) (snd s))))"

text \<open>
  The test of the first line of the extractor.
\<close>

definition is_sentinel :: "string \<Rightarrow> bool" where
  "is_sentinel html_content = startswith html_content ''Error fetching URL''"

text \<open>
  The parsed document with its script and style tags removed.
\<close>

definition cleaned :: "(string \<Rightarrow> node) \<Rightarrow> string \<Rightarrow> node" where
  "cleaned html_parser html_content = decompose [''script'', ''style''] (html_parser html_content)"

text \<open>
  The stages of the extractor on a page.
\<close>

definition extraction ::
  "(string \<Rightarrow> node) \<Rightarrow> (node \<Rightarrow> string \<Rightarrow> loop_bodies) \<Rightarrow> string \<Rightarrow> string \<Rightarrow> (string \<times> pydict list) list" where
  "extraction html_parser bodies html_content base_url =
     stages (cleaned html_parser html_content)
       (bodies (cleaned html_parser html_content) base_url)"

text \<open>
  A node is named when it is a tag; only tags have a name.
\<close>

definition named :: "node \<Rightarrow> bool" where
  "named t \<longleftrightarrow> node_name t \<noteq> []"

definition ascending :: "node list \<Rightarrow> bool" where
  "ascending ns = sorted_wrt (\<lambda>a b. size a < size b) ns"

text \<open>
  An example document: a body with a heading, a paragraph, a tag named \<^verbatim>\<open>h7\<close> and an
  empty navigation tag.
\<close>

definition example_document :: node where
  "example_document =
     Tag ''[document]'' []
       [Tag ''html'' []
          [Tag ''body'' []
             [Tag ''h1'' [(''id'', PStr ''top'')] [NavigableString ''Welcome''],
              Tag ''p'' [] [NavigableString ''Some introduction text''],
              Tag ''h7'' [] [NavigableString ''Fine print''],
              Tag ''nav'' [] []]]]"

text \<open>
  A parser that gives the example document for every page.
\<close>

definition example_parser :: "string \<Rightarrow> node" where
  "example_parser html_content = example_document"

text \<open>
  Loop bodies that record the paragraph of the example document and nothing else.
\<close>

definition example_bodies :: "node \<Rightarrow> string \<Rightarrow> loop_bodies" where
  "example_bodies soup base_url =
     \<lparr>p_results = [Some [(''tag'', PStr ''p''), (''text_snippet'', PStr ''Some introduction text'')]],
      a_results = [], btn_results = [], img_results = [], tag_results = [], svg_results = [],
      form_results = []\<rparr>"

text \<open>
  The tag field of a record.
\<close>

fun element_tag :: "pyval \<Rightarrow> pyval" where
  "element_tag (PDict r) = get_nested_value r ''dom_context.element.tag''"
| "element_tag _ = PNone"

text \<open>
  A section with one heading and a paragraph; no tag of it is named \<^verbatim>\<open>h7\<close>.
\<close>

definition example_section :: node where
  "example_section =
     Tag ''section'' []
       [Tag ''h2'' [] [NavigableString ''Pricing''],
        Tag ''p'' [] [NavigableString ''Plans and prices'']]"

text \<open>
  The markup of the example document.
\<close>

definition example_page :: string where
  "example_page =
     ''<html><body><h1 id=top>Welcome</h1><p>Some introduction text</p><h7>Fine print</h7><nav></nav></body></html>''"

section \<open>Properties\<close>

lemma py_eq_refl [simp]: "py_eq a a"
  by (simp add: py_eq_def)

lemma py_eq_sym: "py_eq a b \<Longrightarrow> py_eq b a"
  by (simp add: py_eq_def)

lemma py_eq_trans: "py_eq a b \<Longrightarrow> py_eq b c \<Longrightarrow> py_eq a c"
  by (simp add: py_eq_def)

lemma py_eq_None [simp]: "py_eq PNone v \<longleftrightarrow> v = PNone" "py_eq v PNone \<longleftrightarrow> v = PNone"
  by (cases v; simp add: py_eq_def)+

lemma tracked_index: "tracked n e \<Longrightarrow> original_index e = Inr (int (tracker e)) \<and> tracker e < n"
  by (auto simp: tracked_def original_index_def dict_item_def tracker_def)

lemma list_assign_nat: "i < length xs \<Longrightarrow> list_assign xs (int i) v = Inr (xs[i := v])"
  by (simp add: list_assign_def Let_def)

lemma store_element_tracked:
  "tracked (length p) e \<Longrightarrow>
   store_element e p = Inr (p[tracker e := Some (dict_pop e ''_original_index'')])"
  by (simp add: store_element_def tracked_index list_assign_nat)

lemma length_add_original_index [simp]: "length (add_original_index i xs) = length xs"
  by (induction xs arbitrary: i) auto

lemma nth_add_original_index:
  "j < length xs \<Longrightarrow>
   add_original_index i xs ! j = dict_set (xs ! j) ''_original_index'' (PInt (int (i + j)))"
proof (induction xs arbitrary: i j)
  case Nil
  then show ?case by simp
next
  case (Cons x xs)
  then show ?case by (cases j) (auto simp: add.assoc)
qed

lemma map_of_dict_set [simp]: "map_of (dict_set d k v) = (map_of d)(k \<mapsto> v)"
  by (simp add: dict_set_def update_conv')

lemma map_of_dict_pop [simp]: "map_of (dict_pop d k) = (map_of d)(k := None)"
  by (simp add: dict_pop_def delete_conv')

lemma dict_pop_dict_set_same [simp]: "dict_pop (dict_set d k v) k = dict_pop d k"
  by (simp add: dict_pop_def dict_set_def delete_update_same)

lemma dict_pop_dict_set_other: "k \<noteq> k' \<Longrightarrow> dict_pop (dict_set d k' v) k = dict_set (dict_pop d k) k' v"
  by (simp add: dict_pop_def dict_set_def delete_update)

lemma dict_pop_absent: "map_of d k = None \<Longrightarrow> dict_pop d k = d"
  by (simp add: dict_pop_def delete_notin_dom map_of_eq_None_iff)

lemma fst_file_under [simp]: "fst (file_under v e ke) = fst ke"
  by (simp add: file_under_def)

lemma group_append_eq:
  "distinct (map (hash_key \<circ> fst) g) \<Longrightarrow>
   group_append v e g =
     (if hash_key v \<in> (hash_key \<circ> fst) ` set g then map (file_under v e) g
      else g @ [(v, [e])])"
proof (induction g)
  case Nil
  then show ?case by simp
next
  case (Cons a g)
  obtain k es where a: "a = (k, es)" by (cases a)
  show ?case
  proof (cases "py_eq k v")
    case True
    have "hash_key k \<notin> (hash_key \<circ> fst) ` set g"
      using Cons.prems a by simp
    then have "\<forall>ke \<in> set g. \<not> py_eq (fst ke) v"
      using True unfolding py_eq_def by (metis comp_apply image_eqI)
    then have "map (file_under v e) g = g"
      by (simp add: file_under_def map_idI)
    moreover have "hash_key v \<in> (hash_key \<circ> fst) ` set (a # g)"
      using True a by (simp add: py_eq_def)
    ultimately show ?thesis using True a by (simp add: file_under_def)
  next
    case False
    then have "hash_key v \<in> (hash_key \<circ> fst) ` set (a # g) \<longleftrightarrow> hash_key v \<in> (hash_key \<circ> fst) ` set g"
      using a by (auto simp: py_eq_def)
    moreover have "group_append v e g =
     (if hash_key v \<in> (hash_key \<circ> fst) ` set g then map (file_under v e) g
      else g @ [(v, [e])])"
      using Cons by simp
    ultimately show ?thesis using False a by (simp add: file_under_def)
  qed
qed

lemma grouped_Nil: "grouped l [] []"
  by (simp add: grouped_def)

lemma grouped_append:
  assumes G: "grouped l P g"
  shows "grouped l (P @ [e]) (group_append (get_nested_value e l) e g)"
proof -
  let ?v = "get_nested_value e l"
  let ?val = "\<lambda>e. get_nested_value e l"
  from G have d: "distinct (map (hash_key \<circ> fst) g)"
    and mem: "\<And>k es. (k, es) \<in> set g \<Longrightarrow>
        es \<noteq> [] \<and> filter (\<lambda>e. py_eq k (?val e)) P = es \<and> ?val (hd es) = k"
    and cov: "\<And>e'. e' \<in> set P \<Longrightarrow> hash_key (?val e') \<in> (hash_key \<circ> fst) ` set g"
    unfolding grouped_def by blast+
  show ?thesis
  proof (cases "hash_key ?v \<in> (hash_key \<circ> fst) ` set g")
    case True
    then have eq: "group_append ?v e g = map (file_under ?v e) g"
      using group_append_eq [OF d] by simp
    have keys: "map (hash_key \<circ> fst) (map (file_under ?v e) g) = map (hash_key \<circ> fst) g"
      by simp
    have m: "es' \<noteq> [] \<and> filter (\<lambda>e. py_eq k (?val e)) (P @ [e]) = es' \<and> ?val (hd es') = k"
      if "(k, es') \<in> set (map (file_under ?v e) g)" for k es'
    proof -
      from that obtain es where in_g: "(k, es) \<in> set g"
        and es': "es' = (if py_eq k ?v then es @ [e] else es)"
        by (auto simp: file_under_def split: if_splits)
      from mem [OF in_g] have ne: "es \<noteq> []" and f: "filter (\<lambda>e. py_eq k (?val e)) P = es"
        and k: "?val (hd es) = k" by simp_all
      have "es' \<noteq> []" using ne es' by simp
      moreover have "filter (\<lambda>e. py_eq k (?val e)) (P @ [e]) = es'"
        unfolding es' filter_append f by simp
      moreover have "hd es' = hd es" using ne es' by simp
      ultimately show ?thesis using k by simp
    qed
    have c: "hash_key (?val e') \<in> (hash_key \<circ> fst) ` set (map (file_under ?v e) g)"
      if "e' \<in> set (P @ [e])" for e'
    proof -
      have "hash_key (?val e') \<in> (hash_key \<circ> fst) ` set g"
        using that cov True by auto
      then show ?thesis by (simp add: image_image)
    qed
    show ?thesis
    proof -
      have dd: "distinct (map (hash_key \<circ> fst) (map (file_under ?v e) g))"
        using d by (simp only: keys)
      have m': "\<forall>k es'. (k, es') \<in> set (map (file_under ?v e) g) \<longrightarrow>
          es' \<noteq> [] \<and> filter (\<lambda>e. py_eq k (?val e)) (P @ [e]) = es' \<and> ?val (hd es') = k"
        by (intro allI impI) (rule m)
      have c': "\<forall>e' \<in> set (P @ [e]). hash_key (?val e') \<in> (hash_key \<circ> fst) ` set (map (file_under ?v e) g)"
        by (intro ballI) (rule c)
      show ?thesis unfolding eq grouped_def by (intro conjI dd m' c')
    qed
  next
    case False
    then have eq: "group_append ?v e g = g @ [(?v, [e])]"
      using group_append_eq [OF d] by simp
    have none: "filter (\<lambda>e'. py_eq ?v (?val e')) P = []"
    proof -
      have "\<not> py_eq ?v (?val e')" if "e' \<in> set P" for e'
        using cov [OF that] False unfolding py_eq_def by metis
      then show ?thesis by (simp add: filter_empty_conv)
    qed
    have m: "es' \<noteq> [] \<and> filter (\<lambda>e. py_eq k (?val e)) (P @ [e]) = es' \<and> ?val (hd es') = k"
      if "(k, es') \<in> set (g @ [(?v, [e])])" for k es'
    proof (cases "(k, es') \<in> set g")
      case True
      then have "hash_key k \<noteq> hash_key ?v" using False by force
      then have n: "\<not> py_eq k ?v" by (simp add: py_eq_def)
      from mem [OF True] have ne: "es' \<noteq> []" and f: "filter (\<lambda>e. py_eq k (?val e)) P = es'"
        and k: "?val (hd es') = k" by simp_all
      have "filter (\<lambda>e. py_eq k (?val e)) (P @ [e]) = es'"
        unfolding filter_append f using n by simp
      then show ?thesis using ne k by simp
    next
      case False
      with that have "k = ?v" "es' = [e]" by auto
      then show ?thesis using none by simp
    qed
    have dd: "distinct (map (hash_key \<circ> fst) (g @ [(?v, [e])]))"
      using d False by simp
    have c: "hash_key (?val e') \<in> (hash_key \<circ> fst) ` set (g @ [(?v, [e])])"
      if "e' \<in> set (P @ [e])" for e'
      using that cov by auto
    show ?thesis
    proof -
      have m': "\<forall>k es'. (k, es') \<in> set (g @ [(?v, [e])]) \<longrightarrow>
          es' \<noteq> [] \<and> filter (\<lambda>e. py_eq k (?val e)) (P @ [e]) = es' \<and> ?val (hd es') = k"
        by (intro allI impI) (rule m)
      have c': "\<forall>e' \<in> set (P @ [e]). hash_key (?val e') \<in> (hash_key \<circ> fst) ` set (g @ [(?v, [e])])"
        by (intro ballI) (rule c)
      show ?thesis unfolding eq grouped_def by (intro conjI dd m' c')
    qed
  qed
qed

lemma group_by_value_grouped:
  "grouped l P g0 \<Longrightarrow> group_by_value l A g0 = Inr g \<Longrightarrow> grouped l (P @ A) g"
proof (induction A arbitrary: P g0)
  case Nil
  then show ?case by simp
next
  case (Cons e A)
  from Cons.prems(2) have h: "hashable (get_nested_value e l)"
    and r: "group_by_value l A (group_append (get_nested_value e l) e g0) = Inr g"
    by (auto simp: Let_def split: if_splits)
  from Cons.IH [OF grouped_append [OF Cons.prems(1)] r] show ?case by simp
qed

lemma group_by_value_result:
  "(\<exists>g. group_by_value l A g0 = Inr g) \<longleftrightarrow> (\<forall>e \<in> set A. hashable (get_nested_value e l))"
  by (induction A arbitrary: g0) (auto simp: Let_def)

lemma group_by_value_error:
  "group_by_value l A g0 = Inl err \<Longrightarrow> err = TypeError \<and> (\<exists>e \<in> set A. \<not> hashable (get_nested_value e l))"
  by (induction A arbitrary: g0) (auto simp: Let_def split: if_splits)

lemma mset_group_append:
  "mset (concat (map snd (group_append v e g))) = add_mset e (mset (concat (map snd g)))"
  by (induction g) auto

lemma group_by_value_mset:
  "group_by_value l A g0 = Inr g \<Longrightarrow>
   mset (concat (map snd g)) = mset (concat (map snd g0)) + mset A"
proof (induction A arbitrary: g0)
  case Nil
  then show ?case by simp
next
  case (Cons e A)
  from Cons.prems have r: "group_by_value l A (group_append (get_nested_value e l) e g0) = Inr g"
    by (auto simp: Let_def split: if_splits)
  from Cons.IH [OF r] show ?case by (simp add: mset_group_append)
qed

lemma subgroup_of_mset:
  "mset A = mset B \<Longrightarrow> length (subgroup_of l A e) = length (subgroup_of l B e)"
proof -
  assume "mset A = mset B"
  then have "mset (subgroup_of l A e) = mset (subgroup_of l B e)"
    by (simp add: subgroup_of_def mset_filter)
  then show ?thesis by (rule mset_eq_length)
qed

lemma carry_mset:
  assumes "mset A = mset B"
  shows "mset (filter (\<lambda>e. length (subgroup_of l A e) \<noteq> 1) A)
       = mset (filter (\<lambda>e. length (subgroup_of l B e) \<noteq> 1) B)"
proof -
  have "(\<lambda>e. length (subgroup_of l A e) \<noteq> 1) = (\<lambda>e. length (subgroup_of l B e) \<noteq> 1)"
    using subgroup_of_mset [OF assms] by auto
  then show ?thesis using assms by (simp add: mset_filter)
qed

lemma still_ambiguous_mset:
  "mset A = mset B \<Longrightarrow> mset (still_ambiguous ls A) = mset (still_ambiguous ls B)"
proof (induction ls arbitrary: A B)
  case Nil
  then show ?case by simp
next
  case (Cons l ls)
  show ?case using Cons.IH [OF carry_mset [OF Cons.prems]] by simp
qed

lemma resolution_mset:
  "mset A = mset B \<Longrightarrow> resolution pk ls A e = resolution pk ls B e"
proof (induction ls arbitrary: A B)
  case Nil
  then show ?case by simp
next
  case (Cons l ls)
  show ?case
    using Cons.IH [OF carry_mset [OF Cons.prems]] subgroup_of_mset [OF Cons.prems]
    by simp
qed

lemma still_ambiguous_subset: "set (still_ambiguous ls A) \<subseteq> set A"
proof (induction ls arbitrary: A)
  case Nil
  then show ?case by simp
next
  case (Cons l ls)
  have "set (still_ambiguous ls (filter (\<lambda>e. length (subgroup_of l A e) \<noteq> 1) A))
        \<subseteq> set (filter (\<lambda>e. length (subgroup_of l A e) \<noteq> 1) A)"
    by (rule Cons.IH)
  then show ?case by auto
qed

lemma still_ambiguous_Nil [simp]: "still_ambiguous ls [] = []"
  by (induction ls) auto

lemma resolution_still_ambiguous:
  "e \<in> set (still_ambiguous ls A) \<Longrightarrow> resolution pk ls A e = dict_pop e ''_original_index''"
proof (induction ls arbitrary: A)
  case Nil
  then show ?case by simp
next
  case (Cons l ls)
  let ?B = "filter (\<lambda>e. length (subgroup_of l A e) \<noteq> 1) A"
  from Cons.prems have in_s: "e \<in> set (still_ambiguous ls ?B)" by simp
  then have "e \<in> set ?B" using still_ambiguous_subset by blast
  then have "length (subgroup_of l A e) \<noteq> 1" by simp
  then show ?case using Cons.IH [OF in_s] by simp
qed

lemma grouped_subgroup:
  assumes "grouped l A g" "(k, es) \<in> set g" "e \<in> set es"
  shows "subgroup_of l A e = es"
proof -
  from assms(1,2) have f: "filter (\<lambda>e. py_eq k (get_nested_value e l)) A = es"
    unfolding grouped_def by blast
  with assms(3) have ke: "py_eq k (get_nested_value e l)" by auto
  have "py_eq (get_nested_value e' l) (get_nested_value e l) \<longleftrightarrow> py_eq k (get_nested_value e' l)" for e'
    using ke by (auto simp: py_eq_def)
  then show ?thesis using f by (simp add: subgroup_of_def)
qed

lemma grouped_cover:
  assumes "grouped l A g" "e \<in> set A"
  shows "\<exists>k. (k, subgroup_of l A e) \<in> set g"
proof -
  from assms have "hash_key (get_nested_value e l) \<in> (hash_key \<circ> fst) ` set g"
    unfolding grouped_def by blast
  then obtain k es where in_g: "(k, es) \<in> set g" and h: "hash_key (get_nested_value e l) = hash_key k"
    by auto
  from assms(1) in_g have f: "filter (\<lambda>e. py_eq k (get_nested_value e l)) A = es"
    unfolding grouped_def by blast
  have "e \<in> set es" using assms(2) h f by (auto simp: py_eq_def)
  from grouped_subgroup [OF assms(1) in_g this] in_g show ?thesis by blast
qed

lemma subgroup_of_self: "e \<in> set A \<Longrightarrow> e \<in> set (subgroup_of l A e)"
  by (simp add: subgroup_of_def)

lemma check_subgroups_spec:
  assumes "\<forall>k es. (k, es) \<in> set sg \<longrightarrow> es \<noteq> [] \<and> get_nested_value (hd es) l = k"
    and "distinct (concat (map snd sg))"
    and "\<forall>e \<in> set (concat (map snd sg)). tracked (length p) e"
    and "inj_on tracker (set (concat (map snd sg)))"
    and "\<forall>e \<in> set (concat (map snd sg)). int (tracker e) \<notin> fst ` set r"
  shows "\<exists>p' r'. check_subgroups pk l sg (p, r, nxt) =
            Inr (p', r', nxt @ concat (filter (\<lambda>es. length es \<noteq> 1) (map snd sg)))
          \<and> length p' = length p
          \<and> fst ` set r' = fst ` set r \<union> {int (tracker e) |e. [e] \<in> snd ` set sg}
          \<and> (\<forall>e. [e] \<in> snd ` set sg \<longrightarrow> p' ! tracker e = Some (resolved_form pk l e))
          \<and> (\<forall>i. (\<forall>e. [e] \<in> snd ` set sg \<longrightarrow> tracker e \<noteq> i) \<longrightarrow> p' ! i = p ! i)"
  using assms
proof (induction sg arbitrary: p r nxt)
  case Nil
  then show ?case by simp
next
  case (Cons a sg)
  obtain k es where a: "a = (k, es)" by (cases a)
  have rest1: "\<forall>k es. (k, es) \<in> set sg \<longrightarrow> es \<noteq> [] \<and> get_nested_value (hd es) l = k"
    using Cons.prems(1) by simp
  have rest2: "distinct (concat (map snd sg))"
    using Cons.prems(2) by simp
  have rest4: "inj_on tracker (set (concat (map snd sg)))"
    using Cons.prems(4) by (simp add: inj_on_Un)
  have es_ne: "es \<noteq> []" and k: "get_nested_value (hd es) l = k"
    using Cons.prems(1) a by simp_all
  show ?case
  proof (cases "length es = 1")
    case False
    have rest3: "\<forall>e \<in> set (concat (map snd sg)). tracked (length p) e"
      using Cons.prems(3) by simp
    have rest5: "\<forall>e \<in> set (concat (map snd sg)). int (tracker e) \<notin> fst ` set r"
      using Cons.prems(5) by simp
    from Cons.IH [OF rest1 rest2 rest3 rest4 rest5, of "nxt @ es"]
    obtain p' r' where
      run: "check_subgroups pk l sg (p, r, nxt @ es) =
              Inr (p', r', (nxt @ es) @ concat (filter (\<lambda>es. length es \<noteq> 1) (map snd sg)))"
      and len: "length p' = length p"
      and rr: "fst ` set r' = fst ` set r \<union> {int (tracker e) |e. [e] \<in> snd ` set sg}"
      and res: "\<forall>e. [e] \<in> snd ` set sg \<longrightarrow> p' ! tracker e = Some (resolved_form pk l e)"
      and oth: "\<forall>i. (\<forall>e. [e] \<in> snd ` set sg \<longrightarrow> tracker e \<noteq> i) \<longrightarrow> p' ! i = p ! i"
      by blast
    have singles: "[e] \<in> snd ` set (a # sg) \<longleftrightarrow> [e] \<in> snd ` set sg" for e
      using False a by auto
    have "check_subgroups pk l (a # sg) (p, r, nxt) =
            Inr (p', r', nxt @ concat (filter (\<lambda>es. length es \<noteq> 1) (map snd (a # sg))))"
      using run False a by simp
    then show ?thesis using len rr res oth by (simp only: singles) blast
  next
    case True
    then obtain e where es: "es = [e]" by (cases es) auto
    with k have ke: "get_nested_value e l = k" by simp
    have tr: "tracked (length p) e" using Cons.prems(3) a es by simp
    then have oi: "original_index e = Inr (int (tracker e))" and lt: "tracker e < length p"
      using tracked_index by blast+
    have fresh: "int (tracker e) \<notin> fst ` set r" using Cons.prems(5) a es by simp
    let ?p1 = "p[tracker e := Some (resolved_form pk l e)]"
    let ?r1 = "(int (tracker e), l) # r"
    have step: "check_subgroups pk l (a # sg) (p, r, nxt) = check_subgroups pk l sg (?p1, ?r1, nxt)"
      using a es oi fresh lt ke by (simp add: list_assign_nat resolved_form_def Let_def)
    have rest3: "\<forall>e \<in> set (concat (map snd sg)). tracked (length ?p1) e"
      using Cons.prems(3) by simp
    have diff: "tracker e' \<noteq> tracker e" if "e' \<in> set (concat (map snd sg))" for e'
    proof -
      have "e' \<noteq> e" using Cons.prems(2) a es that by auto
      moreover have "e \<in> set (concat (map snd (a # sg)))" "e' \<in> set (concat (map snd (a # sg)))"
        using a es that by auto
      ultimately show ?thesis using Cons.prems(4) by (meson inj_onD)
    qed
    have rest5: "\<forall>e' \<in> set (concat (map snd sg)). int (tracker e') \<notin> fst ` set ?r1"
      using Cons.prems(5) diff by auto
    from Cons.IH [OF rest1 rest2 rest3 rest4 rest5, of nxt]
    obtain p' r' where
      run: "check_subgroups pk l sg (?p1, ?r1, nxt) =
              Inr (p', r', nxt @ concat (filter (\<lambda>es. length es \<noteq> 1) (map snd sg)))"
      and len: "length p' = length ?p1"
      and rr: "fst ` set r' = fst ` set ?r1 \<union> {int (tracker e) |e. [e] \<in> snd ` set sg}"
      and res: "\<forall>e. [e] \<in> snd ` set sg \<longrightarrow> p' ! tracker e = Some (resolved_form pk l e)"
      and oth: "\<forall>i. (\<forall>e. [e] \<in> snd ` set sg \<longrightarrow> tracker e \<noteq> i) \<longrightarrow> p' ! i = ?p1 ! i"
      by blast
    have singles: "[e'] \<in> snd ` set (a # sg) \<longleftrightarrow> e' = e \<or> [e'] \<in> snd ` set sg" for e'
      using a es by auto
    have not_single: "tracker e' \<noteq> tracker e" if "[e'] \<in> snd ` set sg" for e'
    proof -
      from that have "e' \<in> set (concat (map snd sg))" by force
      then show ?thesis by (rule diff)
    qed
    have c1: "check_subgroups pk l (a # sg) (p, r, nxt) =
            Inr (p', r', nxt @ concat (filter (\<lambda>es. length es \<noteq> 1) (map snd (a # sg))))"
      using step run a es by simp
    have c2: "length p' = length p" using len by simp
    have c3: "fst ` set r' = fst ` set r \<union> {int (tracker e) |e. [e] \<in> snd ` set (a # sg)}"
      unfolding rr singles by auto
    have c4: "p' ! tracker e' = Some (resolved_form pk l e')" if "[e'] \<in> snd ` set (a # sg)" for e'
    proof (cases "[e'] \<in> snd ` set sg")
      case True
      then show ?thesis using res by blast
    next
      case False
      with that singles have "e' = e" by blast
      moreover have "p' ! tracker e = ?p1 ! tracker e" using oth not_single by blast
      ultimately show ?thesis using lt by simp
    qed
    have c5: "p' ! i = p ! i" if "\<forall>e. [e] \<in> snd ` set (a # sg) \<longrightarrow> tracker e \<noteq> i" for i
    proof -
      from that have "tracker e \<noteq> i" and "\<forall>e. [e] \<in> snd ` set sg \<longrightarrow> tracker e \<noteq> i"
        using singles by blast+
      then have "p' ! i = ?p1 ! i" using oth by blast
      then show ?thesis using \<open>tracker e \<noteq> i\<close> by simp
    qed
    show ?thesis using c1 c2 c3 c4 c5 by blast
  qed
qed

lemma store_remaining_spec:
  assumes "\<forall>e \<in> set A. tracked (length p) e" and "distinct A" and "inj_on tracker (set A)"
  shows "\<exists>p'. store_remaining A p = Inr p' \<and> length p' = length p
          \<and> (\<forall>e \<in> set A. p' ! tracker e = Some (dict_pop e ''_original_index''))
          \<and> (\<forall>i. i \<notin> tracker ` set A \<longrightarrow> p' ! i = p ! i)"
  using assms
proof (induction A arbitrary: p)
  case Nil
  then show ?case by simp
next
  case (Cons e A)
  let ?p1 = "p[tracker e := Some (dict_pop e ''_original_index'')]"
  have tr: "tracked (length p) e" using Cons.prems(1) by simp
  then have lt: "tracker e < length p" using tracked_index by blast
  have step: "store_remaining (e # A) p = store_remaining A ?p1"
    using store_element_tracked [OF tr] by simp
  have h1: "\<forall>e \<in> set A. tracked (length ?p1) e" using Cons.prems(1) by simp
  have h2: "distinct A" using Cons.prems(2) by simp
  have h3: "inj_on tracker (set A)" using Cons.prems(3) by (simp add: inj_on_def)
  from Cons.IH [OF h1 h2 h3] obtain p' where
    run: "store_remaining A ?p1 = Inr p'" and len: "length p' = length ?p1"
    and res: "\<forall>e \<in> set A. p' ! tracker e = Some (dict_pop e ''_original_index'')"
    and oth: "\<forall>i. i \<notin> tracker ` set A \<longrightarrow> p' ! i = ?p1 ! i"
    by blast
  have notin: "tracker e \<notin> tracker ` set A"
  proof
    assume "tracker e \<in> tracker ` set A"
    then obtain e' where "e' \<in> set A" "tracker e' = tracker e" by auto
    moreover have "e' \<noteq> e" using Cons.prems(2) calculation(1) by auto
    ultimately show False using Cons.prems(3) by (auto simp: inj_on_def)
  qed
  have "p' ! tracker e = Some (dict_pop e ''_original_index'')"
    using oth notin lt by simp
  moreover have "p' ! i = p ! i" if "i \<notin> tracker ` set (e # A)" for i
    using that oth by simp
  ultimately show ?case using step run len res by auto
qed

lemma grouped_single_iff:
  assumes "grouped l A g"
  shows "[e] \<in> snd ` set g \<longleftrightarrow> e \<in> set A \<and> length (subgroup_of l A e) = 1"
proof
  assume "[e] \<in> snd ` set g"
  then obtain k where in_g: "(k, [e]) \<in> set g" by force
  have s: "subgroup_of l A e = [e]"
    by (rule grouped_subgroup [OF assms in_g]) simp
  then have "e \<in> set (subgroup_of l A e)" by simp
  then have "e \<in> set A" by (simp add: subgroup_of_def)
  with s show "e \<in> set A \<and> length (subgroup_of l A e) = 1" by simp
next
  assume r: "e \<in> set A \<and> length (subgroup_of l A e) = 1"
  then obtain k where in_g: "(k, subgroup_of l A e) \<in> set g"
    using grouped_cover [OF assms] by blast
  from r obtain x where x: "subgroup_of l A e = [x]"
    by (cases "subgroup_of l A e") auto
  moreover have "e \<in> set (subgroup_of l A e)" using r by (simp add: subgroup_of_self)
  ultimately have "subgroup_of l A e = [e]" by simp
  with in_g show "[e] \<in> snd ` set g" by force
qed

lemma concat_if_filter:
  "concat (map (\<lambda>es. if Q es then es else []) xs) = concat (filter Q xs)"
  by (induction xs) auto

lemma grouped_carry:
  assumes g: "grouped l A g" and m: "mset (concat (map snd g)) = mset A"
  shows "mset (concat (filter (\<lambda>es. length es \<noteq> 1) (map snd g)))
       = mset (filter (\<lambda>e. length (subgroup_of l A e) \<noteq> 1) A)"
proof -
  let ?P = "\<lambda>e. length (subgroup_of l A e) \<noteq> 1"
  have each: "filter ?P es = (if length es \<noteq> 1 then es else [])" if "es \<in> set (map snd g)" for es
  proof -
    from that obtain k where in_g: "(k, es) \<in> set g" by force
    have "subgroup_of l A e = es" if "e \<in> set es" for e
      by (rule grouped_subgroup [OF g in_g that])
    then have "filter ?P es = filter (\<lambda>e. length es \<noteq> 1) es"
      by (intro filter_cong) auto
    then show ?thesis by simp
  qed
  have "mset (filter ?P A) = mset (filter ?P (concat (map snd g)))"
    using m by (simp add: mset_filter)
  also have "filter ?P (concat (map snd g)) = concat (map (filter ?P) (map snd g))"
    by (simp add: filter_concat)
  also have "map (filter ?P) (map snd g) = map (\<lambda>es. if length es \<noteq> 1 then es else []) (map snd g)"
    by (rule map_cong [OF refl]) (rule each)
  also have "concat \<dots> = concat (filter (\<lambda>es. length es \<noteq> 1) (map snd g))"
    by (rule concat_if_filter)
  finally show ?thesis by simp
qed

lemma resolve_levels_spec:
  assumes "distinct A" and "\<forall>e \<in> set A. tracked (length p) e" and "inj_on tracker (set A)"
    and "\<forall>e \<in> set A. int (tracker e) \<notin> fst ` set r"
  shows "case resolve_levels pk ls A p r of
           Inl err \<Rightarrow> err = TypeError \<and> (\<exists>e \<in> set A. \<exists>l \<in> set ls. \<not> hashable (get_nested_value e l))
         | Inr (p', A') \<Rightarrow>
             length p' = length p \<and> mset A' = mset (still_ambiguous ls A)
             \<and> (\<forall>e \<in> set A. e \<notin> set A' \<longrightarrow> p' ! tracker e = Some (resolution pk ls A e))
             \<and> (\<forall>i. i \<notin> tracker ` (set A - set A') \<longrightarrow> p' ! i = p ! i)"
  using assms
proof (induction ls arbitrary: A p r)
  case Nil
  then show ?case by simp
next
  case (Cons l ls)
  show ?case
  proof (cases "A = []")
    case True
    then show ?thesis by simp
  next
    case ne: False
    show ?thesis
    proof (cases "group_by_value l A []")
      case (Inl err)
      from group_by_value_error [OF Inl] ne Inl show ?thesis by auto
    next
      case (Inr g)
      define B where "B = filter (\<lambda>e. length (subgroup_of l A e) \<noteq> 1) A"
      define nxt where "nxt = concat (filter (\<lambda>es. length es \<noteq> 1) (map snd g))"
      have inB: "e \<in> set B \<longleftrightarrow> e \<in> set A \<and> length (subgroup_of l A e) \<noteq> 1" for e
        by (simp add: B_def)
      have g: "grouped l A g"
        using group_by_value_grouped [OF grouped_Nil Inr] by simp
      have m: "mset (concat (map snd g)) = mset A"
        using group_by_value_mset [OF Inr] by simp
      then have s: "set (concat (map snd g)) = set A" by (rule mset_eq_setD)
      have d: "distinct (concat (map snd g))"
        using m Cons.prems(1) mset_eq_imp_distinct_iff by blast
      have h1: "\<forall>k es. (k, es) \<in> set g \<longrightarrow> es \<noteq> [] \<and> get_nested_value (hd es) l = k"
        using g unfolding grouped_def by blast
      have h3: "\<forall>e \<in> set (concat (map snd g)). tracked (length p) e"
        unfolding s by (rule Cons.prems(2))
      have h4: "inj_on tracker (set (concat (map snd g)))"
        unfolding s by (rule Cons.prems(3))
      have h5: "\<forall>e \<in> set (concat (map snd g)). int (tracker e) \<notin> fst ` set r"
        unfolding s by (rule Cons.prems(4))
      from check_subgroups_spec [OF h1 d h3 h4 h5, of pk "[]"]
      obtain p1 r1 where
        run: "check_subgroups pk l g (p, r, []) = Inr (p1, r1, nxt)"
        and len1: "length p1 = length p"
        and rr: "fst ` set r1 = fst ` set r \<union> {int (tracker e) |e. [e] \<in> snd ` set g}"
        and res: "\<forall>e. [e] \<in> snd ` set g \<longrightarrow> p1 ! tracker e = Some (resolved_form pk l e)"
        and oth: "\<forall>i. (\<forall>e. [e] \<in> snd ` set g \<longrightarrow> tracker e \<noteq> i) \<longrightarrow> p1 ! i = p ! i"
        unfolding nxt_def by auto
      have step: "resolve_levels pk (l # ls) A p r = resolve_levels pk ls nxt p1 r1"
        using ne Inr run by simp
      have mn: "mset nxt = mset B" unfolding nxt_def B_def by (rule grouped_carry [OF g m])
      then have sn: "set nxt = set B" by (rule mset_eq_setD)
      have single: "[e] \<in> snd ` set g \<longleftrightarrow> e \<in> set A \<and> length (subgroup_of l A e) = 1" for e
        by (rule grouped_single_iff [OF g])
      have inj: "e = e'" if "e \<in> set A" "e' \<in> set A" "tracker e = tracker e'" for e e'
        using that Cons.prems(3) by (auto simp: inj_on_def)
      have "distinct B" unfolding B_def using Cons.prems(1) by simp
      then have i1: "distinct nxt"
        using mn mset_eq_imp_distinct_iff by blast
      have i2: "\<forall>e \<in> set nxt. tracked (length p1) e"
        unfolding sn len1 using Cons.prems(2) inB by blast
      have i3: "inj_on tracker (set nxt)"
        unfolding sn using inj inB by (intro inj_onI) blast
      have i4: "\<forall>e \<in> set nxt. int (tracker e) \<notin> fst ` set r1"
      proof
        fix e assume "e \<in> set nxt"
        then have "e \<in> set B" unfolding sn by simp
        then have eA: "e \<in> set A" and eB: "length (subgroup_of l A e) \<noteq> 1"
          using inB by blast+
        have "tracker e' \<noteq> tracker e" if "[e'] \<in> snd ` set g" for e'
        proof -
          from that have "e' \<in> set A" "length (subgroup_of l A e') = 1" using single by blast+
          with eA eB inj show ?thesis by metis
        qed
        then have "int (tracker e) \<notin> {int (tracker e') |e'. [e'] \<in> snd ` set g}"
          by fastforce
        moreover have "int (tracker e) \<notin> fst ` set r" using Cons.prems(4) eA by blast
        ultimately show "int (tracker e) \<notin> fst ` set r1"
          unfolding rr by blast
      qed
      note IH = Cons.IH [OF i1 i2 i3 i4]
      show ?thesis
      proof (cases "resolve_levels pk ls nxt p1 r1")
        case (Inl err)
        with IH have "err = TypeError" and "\<exists>e \<in> set nxt. \<exists>l \<in> set ls. \<not> hashable (get_nested_value e l)"
          by simp_all
        then have "err = TypeError \<and> (\<exists>e \<in> set A. \<exists>l' \<in> set (l # ls). \<not> hashable (get_nested_value e l'))"
          unfolding sn using inB by (meson list.set_intros(2))
        then show ?thesis unfolding step Inl by simp
      next
        case (Inr pa)
        obtain p' A' where pa: "pa = (p', A')" by (cases pa)
        from IH Inr pa have len: "length p' = length p1"
          and mA: "mset A' = mset (still_ambiguous ls nxt)"
          and res': "\<forall>e \<in> set nxt. e \<notin> set A' \<longrightarrow> p' ! tracker e = Some (resolution pk ls nxt e)"
          and oth': "\<forall>i. i \<notin> tracker ` (set nxt - set A') \<longrightarrow> p' ! i = p1 ! i"
          by simp_all
        have A'sub: "set A' \<subseteq> set B"
        proof -
          have "set A' = set (still_ambiguous ls nxt)" using mA by (rule mset_eq_setD)
          then show ?thesis using still_ambiguous_subset sn by blast
        qed
        have c1: "length p' = length p" using len len1 by simp
        have c2: "mset A' = mset (still_ambiguous (l # ls) A)"
          using mA still_ambiguous_mset [OF mn] by (simp add: B_def)
        have c3: "p' ! tracker e = Some (resolution pk (l # ls) A e)" if eA: "e \<in> set A" and "e \<notin> set A'" for e
        proof (cases "length (subgroup_of l A e) = 1")
          case False
          then have "e \<in> set nxt" unfolding sn using inB eA by blast
          then have "p' ! tracker e = Some (resolution pk ls nxt e)" using res' that by blast
          also have "resolution pk ls nxt e = resolution pk ls B e" by (rule resolution_mset [OF mn])
          finally show ?thesis using False by (simp add: B_def)
        next
          case True
          then have sg: "[e] \<in> snd ` set g" using single eA by blast
          have "tracker e' \<noteq> tracker e" if "e' \<in> set nxt - set A'" for e'
          proof -
            from that have "e' \<in> set B" unfolding sn by simp
            then have "e' \<in> set A" "length (subgroup_of l A e') \<noteq> 1" using inB by blast+
            with True eA inj show ?thesis by metis
          qed
          then have "tracker e \<notin> tracker ` (set nxt - set A')" by (metis imageE)
          then have "p' ! tracker e = p1 ! tracker e" using oth' by blast
          also have "\<dots> = Some (resolved_form pk l e)" using res sg by blast
          finally show ?thesis using True by simp
        qed
        have c4: "p' ! i = p ! i" if "i \<notin> tracker ` (set A - set A')" for i
        proof -
          have "set nxt - set A' \<subseteq> set A - set A'" unfolding sn using inB by blast
          then have "i \<notin> tracker ` (set nxt - set A')" using that by blast
          then have "p' ! i = p1 ! i" using oth' by blast
          moreover have "tracker e \<noteq> i" if "[e] \<in> snd ` set g" for e
          proof -
            from that have "e \<in> set A" "length (subgroup_of l A e) = 1" using single by blast+
            then have "e \<in> set A - set A'" using A'sub inB by blast
            then show ?thesis using \<open>i \<notin> tracker ` (set A - set A')\<close> by blast
          qed
          ultimately show ?thesis using oth by simp
        qed
        show ?thesis unfolding step Inr pa using c1 c2 c3 c4 by simp
      qed
    qed
  qed
qed

lemma still_ambiguous_distinct: "distinct A \<Longrightarrow> distinct (still_ambiguous ls A)"
  by (induction ls arbitrary: A) auto

lemma process_groups_spec:
  assumes "\<forall>k es. (k, es) \<in> set gs \<longrightarrow> es \<noteq> []"
    and "distinct (concat (map snd gs))"
    and "\<forall>e \<in> set (concat (map snd gs)). tracked (length p) e"
    and "inj_on tracker (set (concat (map snd gs)))"
  shows "case process_groups pk h gs p of
           Inl err \<Rightarrow> err = TypeError \<and>
             (\<exists>e \<in> set (concat (map snd gs)). \<exists>l \<in> set h. \<not> hashable (get_nested_value e l))
         | Inr p' \<Rightarrow>
             length p' = length p
             \<and> (\<forall>k es e. (k, es) \<in> set gs \<longrightarrow> e \<in> set es \<longrightarrow>
                   p' ! tracker e = Some (outcome pk h es e))
             \<and> (\<forall>i. i \<notin> tracker ` set (concat (map snd gs)) \<longrightarrow> p' ! i = p ! i)"
  using assms
proof (induction gs arbitrary: p)
  case Nil
  then show ?case by simp
next
  case (Cons a gs)
  obtain k es where a: "a = (k, es)" by (cases a)
  define R where "R = set (concat (map snd gs))"
  have all: "set (concat (map snd (a # gs))) = set es \<union> R"
    using a by (simp add: R_def)
  have inj: "e = e'" if "e \<in> set es \<union> R" "e' \<in> set es \<union> R" "tracker e = tracker e'" for e e'
    using that Cons.prems(4) unfolding all by (auto simp: inj_on_def)
  have disj: "e \<notin> R" if "e \<in> set es" for e
    using that Cons.prems(2) a by (auto simp: R_def)
  have des: "distinct es" using Cons.prems(2) a by simp
  have tr_es: "\<forall>e \<in> set es. tracked (length p) e" using Cons.prems(3) a by simp
  have inj_es: "inj_on tracker (set es)" using inj by (intro inj_onI) blast
  have g1: "\<forall>k es. (k, es) \<in> set gs \<longrightarrow> es \<noteq> []" using Cons.prems(1) by simp
  have g2: "distinct (concat (map snd gs))" using Cons.prems(2) by simp
  have g4: "inj_on tracker (set (concat (map snd gs)))"
    using inj unfolding R_def by (intro inj_onI) blast
  have in_R: "e \<in> R" if "(k', es') \<in> set gs" "e \<in> set es'" for k' es' e
    using that unfolding R_def by force
  have mid: "\<exists>p2. length p2 = length p
        \<and> (\<forall>e \<in> set es. p2 ! tracker e = Some (outcome pk h es e))
        \<and> (\<forall>i. i \<notin> tracker ` set es \<longrightarrow> p2 ! i = p ! i)
        \<and> process_groups pk h (a # gs) p = process_groups pk h gs p2"
    if ok: "\<not> (\<exists>err. resolve_levels pk h es p [] = Inl err \<and> length es \<noteq> 1)"
  proof (cases "length es = 1")
    case True
    then obtain e where es: "es = [e]" by (cases es) auto
    have tr: "tracked (length p) e" using tr_es es by simp
    then have lt: "tracker e < length p" using tracked_index by blast
    let ?p2 = "p[tracker e := Some (dict_pop e ''_original_index'')]"
    have "process_groups pk h (a # gs) p = process_groups pk h gs ?p2"
      using a es store_element_tracked [OF tr] by simp
    moreover have "\<forall>e' \<in> set es. ?p2 ! tracker e' = Some (outcome pk h es e')"
      using es lt by (simp add: outcome_def)
    moreover have "\<forall>i. i \<notin> tracker ` set es \<longrightarrow> ?p2 ! i = p ! i"
      using es by simp
    ultimately show ?thesis by (intro exI [of _ ?p2]) simp
  next
    case False
    have r0: "\<forall>e \<in> set es. int (tracker e) \<notin> fst ` set []" by simp
    note RL = resolve_levels_spec [OF des tr_es inj_es r0, where pk = pk and ls = h]
    from ok False obtain p1 A1 where run: "resolve_levels pk h es p [] = Inr (p1, A1)"
      by (cases "resolve_levels pk h es p []") auto
    from RL run have len1: "length p1 = length p"
      and mA: "mset A1 = mset (still_ambiguous h es)"
      and res: "\<forall>e \<in> set es. e \<notin> set A1 \<longrightarrow> p1 ! tracker e = Some (resolution pk h es e)"
      and oth: "\<forall>i. i \<notin> tracker ` (set es - set A1) \<longrightarrow> p1 ! i = p ! i"
      by simp_all
    have sA: "set A1 = set (still_ambiguous h es)" using mA by (rule mset_eq_setD)
    then have sub: "set A1 \<subseteq> set es" using still_ambiguous_subset by blast
    have dA: "distinct A1"
      using mA still_ambiguous_distinct [OF des] mset_eq_imp_distinct_iff by blast
    have trA: "\<forall>e \<in> set A1. tracked (length p1) e" using tr_es sub len1 by auto
    have injA: "inj_on tracker (set A1)" using inj sub by (intro inj_onI) blast
    from store_remaining_spec [OF trA dA injA] obtain p2 where
      run2: "store_remaining A1 p1 = Inr p2" and len2: "length p2 = length p1"
      and res2: "\<forall>e \<in> set A1. p2 ! tracker e = Some (dict_pop e ''_original_index'')"
      and oth2: "\<forall>i. i \<notin> tracker ` set A1 \<longrightarrow> p2 ! i = p1 ! i"
      by blast
    have c1: "p2 ! tracker e = Some (outcome pk h es e)" if e: "e \<in> set es" for e
    proof (cases "e \<in> set A1")
      case True
      then have "resolution pk h es e = dict_pop e ''_original_index''"
        unfolding sA by (rule resolution_still_ambiguous)
      then show ?thesis using res2 True False by (simp add: outcome_def)
    next
      case nA: False
      have "tracker e' \<noteq> tracker e" if "e' \<in> set A1" for e'
      proof
        assume t: "tracker e' = tracker e"
        have "e' \<in> set es \<union> R" "e \<in> set es \<union> R" using that sub e by auto
        then have "e' = e" using t by (rule inj)
        with that nA show False by simp
      qed
      then have "tracker e \<notin> tracker ` set A1" by (metis imageE)
      then have "p2 ! tracker e = p1 ! tracker e" using oth2 by blast
      then show ?thesis using res e nA False by (simp add: outcome_def)
    qed
    have c2: "p2 ! i = p ! i" if "i \<notin> tracker ` set es" for i
    proof -
      have "i \<notin> tracker ` set A1" "i \<notin> tracker ` (set es - set A1)" using that sub by blast+
      then show ?thesis using oth oth2 by simp
    qed
    have "process_groups pk h (a # gs) p = process_groups pk h gs p2"
      using a False run run2 by simp
    then show ?thesis using c1 c2 len1 len2 by (intro exI [of _ p2]) simp
  qed
  show ?case
  proof (cases "\<exists>err. resolve_levels pk h es p [] = Inl err \<and> length es \<noteq> 1")
    case True
    then obtain err where e1: "resolve_levels pk h es p [] = Inl err" and ne: "length es \<noteq> 1" by blast
    have r0: "\<forall>e \<in> set es. int (tracker e) \<notin> fst ` set []" by simp
    from resolve_levels_spec [OF des tr_es inj_es r0, where pk = pk and ls = h] e1
    have "err = TypeError" and "\<exists>e \<in> set es. \<exists>l \<in> set h. \<not> hashable (get_nested_value e l)"
      by simp_all
    moreover have "process_groups pk h (a # gs) p = Inl err" using a e1 ne by simp
    ultimately show ?thesis unfolding all by auto
  next
    case False
    from mid [OF False] obtain p2 where len2: "length p2 = length p"
      and res2: "\<forall>e \<in> set es. p2 ! tracker e = Some (outcome pk h es e)"
      and oth2: "\<forall>i. i \<notin> tracker ` set es \<longrightarrow> p2 ! i = p ! i"
      and step: "process_groups pk h (a # gs) p = process_groups pk h gs p2"
      by blast
    have g3: "\<forall>e \<in> set (concat (map snd gs)). tracked (length p2) e"
      using Cons.prems(3) len2 by simp
    note IH = Cons.IH [OF g1 g2 g3 g4, folded R_def]
    show ?thesis
    proof (cases "process_groups pk h gs p2")
      case (Inl err)
      with IH have "err = TypeError" and "\<exists>e \<in> R. \<exists>l \<in> set h. \<not> hashable (get_nested_value e l)"
        by simp_all
      then show ?thesis unfolding step Inl all by auto
    next
      case (Inr p')
      with IH have len: "length p' = length p2"
        and res: "\<forall>k es e. (k, es) \<in> set gs \<longrightarrow> e \<in> set es \<longrightarrow> p' ! tracker e = Some (outcome pk h es e)"
        and oth: "\<forall>i. i \<notin> tracker ` R \<longrightarrow> p' ! i = p2 ! i"
        by simp_all
      have c1: "p' ! tracker e = Some (outcome pk h es' e)" if "(k', es') \<in> set (a # gs)" "e \<in> set es'" for k' es' e
      proof (cases "(k', es') \<in> set gs")
        case True
        then show ?thesis using res that by blast
      next
        case False
        with that a have es': "es' = es" and e: "e \<in> set es" by auto
        have "tracker e' \<noteq> tracker e" if "e' \<in> R" for e'
        proof
          assume t: "tracker e' = tracker e"
          have "e' \<in> set es \<union> R" "e \<in> set es \<union> R" using that e by auto
          then have "e' = e" using t by (rule inj)
          with that disj [OF e] show False by simp
        qed
        then have "tracker e \<notin> tracker ` R" by (metis imageE)
        then have "p' ! tracker e = p2 ! tracker e" using oth by blast
        then show ?thesis using res2 e es' by simp
      qed
      have c2: "p' ! i = p ! i" if "i \<notin> tracker ` (set es \<union> R)" for i
      proof -
        from that have "i \<notin> tracker ` R" "i \<notin> tracker ` set es" by blast+
        then show ?thesis using oth oth2 by simp
      qed
      have c1': "\<forall>k' es' e. (k', es') \<in> set (a # gs) \<longrightarrow> e \<in> set es' \<longrightarrow>
                   p' ! tracker e = Some (outcome pk h es' e)"
        using c1 by blast
      show ?thesis unfolding step Inr all using len len2 c1' c2 by simp
    qed
  qed
qed

lemma indexed_nth:
  "i < length xs \<Longrightarrow>
   add_original_index 0 xs ! i = dict_set (xs ! i) ''_original_index'' (PInt (int i))"
  using nth_add_original_index [of i xs 0] by simp

lemma indexed_map_of:
  "i < length xs \<Longrightarrow>
   map_of (add_original_index 0 xs ! i) ''_original_index'' = Some (PInt (int i))"
  by (simp add: indexed_nth)

lemma indexed_tracked:
  assumes "i < length xs"
  shows "tracked (length xs) (add_original_index 0 xs ! i)"
    and "tracker (add_original_index 0 xs ! i) = i"
proof -
  show "tracked (length xs) (add_original_index 0 xs ! i)"
    unfolding tracked_def using assms indexed_map_of by blast
  show "tracker (add_original_index 0 xs ! i) = i"
    unfolding tracker_def by (simp add: indexed_map_of [OF assms])
qed

lemma indexed_props:
  "distinct (add_original_index 0 xs)"
  "inj_on tracker (set (add_original_index 0 xs))"
  "\<forall>e \<in> set (add_original_index 0 xs). tracked (length xs) e"
proof -
  define ys where "ys = add_original_index 0 xs"
  have len: "length ys = length xs" by (simp add: ys_def)
  have t: "tracker (ys ! i) = i" if "i < length xs" for i
    unfolding ys_def using that by (rule indexed_tracked(2))
  have "distinct ys"
  proof (rule distinct_conv_nth [THEN iffD2], intro allI impI)
    fix i j assume "i < length ys" "j < length ys" "i \<noteq> j"
    then have "tracker (ys ! i) \<noteq> tracker (ys ! j)" using t len by simp
    then show "ys ! i \<noteq> ys ! j" by auto
  qed
  then show "distinct (add_original_index 0 xs)" by (simp add: ys_def)
  have "inj_on tracker (set ys)"
  proof (rule inj_onI)
    fix a b assume a: "a \<in> set ys" and b: "b \<in> set ys" and e: "tracker a = tracker b"
    from a obtain i where i: "i < length xs" "a = ys ! i"
      unfolding in_set_conv_nth len by blast
    from b obtain j where j: "j < length xs" "b = ys ! j"
      unfolding in_set_conv_nth len by blast
    have "i = j" using e i j t by simp
    then show "a = b" using i j by simp
  qed
  then show "inj_on tracker (set (add_original_index 0 xs))" by (simp add: ys_def)
  have "tracked (length xs) e" if "e \<in> set ys" for e
  proof -
    from that obtain i where i: "i < length xs" "e = ys ! i"
      unfolding in_set_conv_nth len by blast
    then show ?thesis unfolding ys_def using indexed_tracked(1) by simp
  qed
  then show "\<forall>e \<in> set (add_original_index 0 xs). tracked (length xs) e"
    by (simp add: ys_def)
qed

lemma map_filter_Some: "List.map_filter (\<lambda>x. x) (map (\<lambda>e. Some (f e)) ys) = map f ys"
  by (induction ys) (auto simp: List.map_filter_def)

lemma add_uniqueness_context_spec:
  "case add_uniqueness_context xs pk h of
     Inl err \<Rightarrow> err = TypeError \<and>
       (\<exists>e \<in> set (add_original_index 0 xs). \<exists>l \<in> set (pk # h). \<not> hashable (get_nested_value e l))
   | Inr out \<Rightarrow> out = map (final_record pk h (add_original_index 0 xs)) (add_original_index 0 xs)"
proof -
  define ys where "ys = add_original_index 0 xs"
  define p0 where "p0 = replicate (length xs) (None :: pydict option)"
  have len: "length ys = length xs" by (simp add: ys_def)
  have unf: "add_uniqueness_context xs pk h =
      (case group_by_value pk ys [] of
        Inl err \<Rightarrow> Inl err
      | Inr gs \<Rightarrow>
          (case process_groups pk h gs p0 of
             Inl err \<Rightarrow> Inl err
           | Inr p \<Rightarrow> Inr (List.map_filter (\<lambda>elem. elem) p)))"
    unfolding add_uniqueness_context_def ys_def p0_def Let_def by (rule refl)
  show ?thesis
  proof (cases "group_by_value pk ys []")
    case (Inl err)
    from group_by_value_error [OF Inl] show ?thesis
      using Inl by (auto simp: unf ys_def [symmetric])
  next
    case (Inr gs)
    have g: "grouped pk ys gs"
      using group_by_value_grouped [OF grouped_Nil Inr] by simp
    have m: "mset (concat (map snd gs)) = mset ys"
      using group_by_value_mset [OF Inr] by simp
    then have s: "set (concat (map snd gs)) = set ys" by (rule mset_eq_setD)
    have h1: "\<forall>k es. (k, es) \<in> set gs \<longrightarrow> es \<noteq> []"
      using g unfolding grouped_def by blast
    have h2: "distinct (concat (map snd gs))"
      using m indexed_props(1) [of xs] mset_eq_imp_distinct_iff unfolding ys_def by blast
    have h3: "\<forall>e \<in> set (concat (map snd gs)). tracked (length p0) e"
      unfolding s using indexed_props(3) [of xs] by (simp add: ys_def p0_def)
    have h4: "inj_on tracker (set (concat (map snd gs)))"
      unfolding s ys_def by (rule indexed_props(2))
    note PG = process_groups_spec [OF h1 h2 h3 h4, where pk = pk and h = h]
    show ?thesis
    proof (cases "process_groups pk h gs p0")
      case (Inl err)
      with PG have "err = TypeError"
        and "\<exists>e \<in> set ys. \<exists>l \<in> set h. \<not> hashable (get_nested_value e l)"
        unfolding s by simp_all
      then show ?thesis using Inr Inl by (auto simp: unf ys_def [symmetric])
    next
      case pr: (Inr p)
      with PG have lp: "length p = length p0"
        and res: "\<forall>k es e. (k, es) \<in> set gs \<longrightarrow> e \<in> set es \<longrightarrow> p ! tracker e = Some (outcome pk h es e)"
        by simp_all
      have "p = map (\<lambda>e. Some (final_record pk h ys e)) ys"
      proof (rule nth_equalityI)
        show "length p = length (map (\<lambda>e. Some (final_record pk h ys e)) ys)"
          using lp len by (simp add: p0_def)
      next
        fix i assume "i < length p"
        then have i: "i < length xs" using lp by (simp add: p0_def)
        then have in_ys: "ys ! i \<in> set ys" using len by simp
        have t: "tracker (ys ! i) = i" unfolding ys_def using i by (rule indexed_tracked(2))
        from grouped_cover [OF g in_ys] obtain k where
          "(k, subgroup_of pk ys (ys ! i)) \<in> set gs" by blast
        moreover have "ys ! i \<in> set (subgroup_of pk ys (ys ! i))"
          using in_ys by (rule subgroup_of_self)
        ultimately have "p ! tracker (ys ! i) = Some (outcome pk h (subgroup_of pk ys (ys ! i)) (ys ! i))"
          using res by blast
        then show "p ! i = map (\<lambda>e. Some (final_record pk h ys e)) ys ! i"
          using t i len by (simp add: final_record_def)
      qed
      then have "List.map_filter (\<lambda>elem. elem) p = map (final_record pk h ys) ys"
        by (simp only: map_filter_Some)
      then show ?thesis using Inr pr by (simp add: unf ys_def [symmetric])
    qed
  qed
qed

lemma still_ambiguous_append:
  "still_ambiguous (ls @ ms) A = still_ambiguous ms (still_ambiguous ls A)"
  by (induction ls arbitrary: A) auto

lemma ambiguous_before_0 [simp]: "ambiguous_before h G 0 = G"
  by (simp add: ambiguous_before_def)

lemma ambiguous_before_Suc:
  "k < length h \<Longrightarrow>
   ambiguous_before h G (Suc k) =
     filter (\<lambda>e. length (subgroup_of (h ! k) (ambiguous_before h G k) e) \<noteq> 1) (ambiguous_before h G k)"
  by (simp add: ambiguous_before_def take_Suc_conv_app_nth still_ambiguous_append)

lemma ambiguous_before_all: "length h \<le> k \<Longrightarrow> ambiguous_before h G k = still_ambiguous h G"
  by (simp add: ambiguous_before_def)

lemma ambiguous_before_mono:
  "j \<le> k \<Longrightarrow> set (ambiguous_before h G k) \<subseteq> set (ambiguous_before h G j)"
proof -
  assume "j \<le> k"
  then have "take k h = take j h @ drop j (take k h)"
    by (metis append_take_drop_id min.absorb2 take_take min.commute)
  then have "ambiguous_before h G k = still_ambiguous (drop j (take k h)) (ambiguous_before h G j)"
    unfolding ambiguous_before_def by (metis still_ambiguous_append)
  then show ?thesis using still_ambiguous_subset by simp
qed

lemma ambiguous_before_subset: "set (ambiguous_before h G k) \<subseteq> set G"
  unfolding ambiguous_before_def by (rule still_ambiguous_subset)

lemma ambiguous_before_distinct: "distinct G \<Longrightarrow> distinct (ambiguous_before h G k)"
  unfolding ambiguous_before_def by (rule still_ambiguous_distinct)

lemma ambiguous_later:
  assumes "e \<in> set (ambiguous_before h G k)" and "j < k" and "j < length h"
  shows "e \<in> set (ambiguous_before h G j) \<and>
         length (subgroup_of (h ! j) (ambiguous_before h G j) e) \<noteq> 1"
proof -
  have "e \<in> set (ambiguous_before h G (Suc j))"
    using assms(1,2) ambiguous_before_mono [of "Suc j" k h G] by auto
  then show ?thesis by (simp add: ambiguous_before_Suc [OF assms(3)])
qed

lemma alone_at_unique:
  assumes "alone_at h G k e" and "alone_at h G j e" and "k < length h" and "j < length h"
  shows "j = k"
proof (rule ccontr)
  assume "j \<noteq> k"
  then consider "j < k" | "k < j" by linarith
  then show False
  proof cases
    case 1
    from ambiguous_later [OF _ 1 assms(4)] assms(1,2) show False by (simp add: alone_at_def)
  next
    case 2
    from ambiguous_later [OF _ 2 assms(3)] assms(1,2) show False by (simp add: alone_at_def)
  qed
qed

lemma resolution_append:
  "e \<in> set (still_ambiguous ls A) \<Longrightarrow>
   resolution pk (ls @ ms) A e = resolution pk ms (still_ambiguous ls A) e"
proof (induction ls arbitrary: A)
  case Nil
  then show ?case by simp
next
  case (Cons l ls)
  let ?B = "filter (\<lambda>e. length (subgroup_of l A e) \<noteq> 1) A"
  from Cons.prems have in_s: "e \<in> set (still_ambiguous ls ?B)" by simp
  then have "e \<in> set ?B" using still_ambiguous_subset by blast
  then have "length (subgroup_of l A e) \<noteq> 1" by simp
  then show ?case using Cons.IH [OF in_s] by simp
qed

lemma resolution_alone:
  assumes "k < length h" and "alone_at h G k e"
  shows "resolution pk h G e = resolved_form pk (h ! k) e"
proof -
  have h: "h = take k h @ (h ! k # drop (Suc k) h)"
    using assms(1) by (simp add: id_take_nth_drop [symmetric])
  have "resolution pk (take k h @ (h ! k # drop (Suc k) h)) G e
        = resolution pk (h ! k # drop (Suc k) h) (ambiguous_before h G k) e"
    unfolding ambiguous_before_def
    using assms(2) by (intro resolution_append) (simp add: alone_at_def ambiguous_before_def)
  also have "\<dots> = resolved_form pk (h ! k) e"
    using assms(2) by (simp add: alone_at_def)
  finally show ?thesis using h by simp
qed

lemma resolved_or_ambiguous:
  "e \<in> set G \<Longrightarrow>
   e \<in> set (still_ambiguous h G) \<or> (\<exists>k<length h. alone_at h G k e)"
proof (induction h arbitrary: G)
  case Nil
  then show ?case by simp
next
  case (Cons l ls)
  let ?B = "filter (\<lambda>e. length (subgroup_of l G e) \<noteq> 1) G"
  show ?case
  proof (cases "length (subgroup_of l G e) = 1")
    case True
    then have "alone_at (l # ls) G 0 e" using Cons.prems by (simp add: alone_at_def)
    then show ?thesis by blast
  next
    case False
    then have "e \<in> set ?B" using Cons.prems by simp
    from Cons.IH [OF this] show ?thesis
    proof
      assume "e \<in> set (still_ambiguous ls ?B)"
      then show ?thesis by simp
    next
      assume "\<exists>k<length ls. alone_at ls ?B k e"
      then obtain k where k: "k < length ls" "alone_at ls ?B k e" by blast
      then have "alone_at (l # ls) G (Suc k) e"
        by (simp add: alone_at_def ambiguous_before_def)
      with k(1) show ?thesis by auto
    qed
  qed
qed

lemma other_member:
  assumes "distinct A" and "e \<in> set A" and "length (subgroup_of l A e) \<noteq> 1"
  shows "\<exists>e' \<in> set A. e' \<noteq> e \<and> py_eq (get_nested_value e' l) (get_nested_value e l)"
proof (rule ccontr)
  assume n: "\<not> ?thesis"
  have "subgroup_of l A e = filter (\<lambda>e'. e' = e) A"
    unfolding subgroup_of_def using n by (intro filter_cong) auto
  also have "\<dots> = [e]"
    using assms(1,2) by (induction A) (auto simp: filter_empty_conv)
  finally show False using assms(3) by simp
qed

lemma irreducible:
  assumes "distinct G" and "e \<in> set (still_ambiguous h G)"
  shows "\<forall>l \<in> set h. \<exists>e' \<in> set G. e' \<noteq> e \<and> py_eq (get_nested_value e' l) (get_nested_value e l)"
proof
  fix l assume "l \<in> set h"
  then obtain k where k: "k < length h" "h ! k = l" by (auto simp: in_set_conv_nth)
  have "e \<in> set (ambiguous_before h G (length h))"
    using assms(2) by (simp add: ambiguous_before_all)
  from ambiguous_later [OF this k(1) k(1)]
  have in_k: "e \<in> set (ambiguous_before h G k)"
    and ne: "length (subgroup_of l (ambiguous_before h G k) e) \<noteq> 1"
    using k(2) by simp_all
  from other_member [OF ambiguous_before_distinct [OF assms(1)] in_k ne]
  obtain e' where "e' \<in> set (ambiguous_before h G k)" "e' \<noteq> e"
    "py_eq (get_nested_value e' l) (get_nested_value e l)" by blast
  then show "\<exists>e' \<in> set G. e' \<noteq> e \<and> py_eq (get_nested_value e' l) (get_nested_value e l)"
    using ambiguous_before_subset by blast
qed

lemma dict_get_dict_set_other: "k \<noteq> k' \<Longrightarrow> dict_get (dict_set d k' v) k = dict_get d k"
  by (simp add: dict_get_def)

lemma dict_get_default_dict_set_other:
  "k \<noteq> k' \<Longrightarrow> dict_get_default (dict_set d k' v) k dflt = dict_get_default d k dflt"
  by (simp add: dict_get_default_def)

lemma follow_keys_scalar: "follow_keys ks (PInt n) = (if ks = [] then Some (PInt n) else None)"
  by (cases ks) auto

lemma standard_value_indexed:
  "standard_value (dict_set e ''_original_index'' (PInt n)) l = standard_value e l
   \<or> standard_value (dict_set e ''_original_index'' (PInt n)) l \<in> {PInt n, PNone}
   \<or> \<not> hashable (standard_value e l)"
proof (cases "str_split ''.'' l")
  case Nil
  then show ?thesis by (simp add: standard_value_def)
next
  case (Cons k1 rest)
  show ?thesis
  proof (cases "k1 = ''_original_index''")
    case True
    then show ?thesis using Cons
      by (simp add: standard_value_def dict_get_def follow_keys_scalar)
  next
    case False
    then have "follow_keys (k1 # rest) (PDict (dict_set e ''_original_index'' (PInt n)))
             = follow_keys (k1 # rest) (PDict e)"
      by (simp add: dict_get_dict_set_other)
    then show ?thesis using Cons by (simp add: standard_value_def)
  qed
qed

lemma get_nested_value_indexed:
  "hashable (get_nested_value e l) \<Longrightarrow>
   hashable (get_nested_value (dict_set e ''_original_index'' (PInt n)) l)"
proof -
  assume h: "hashable (get_nested_value e l)"
  have s: "sibling_text_value (dict_set e ''_original_index'' (PInt n)) = sibling_text_value e"
    by (simp add: sibling_text_value_def dict_get_dict_set_other)
  have pc: "parent_classes_value (dict_set e ''_original_index'' (PInt n)) = parent_classes_value e"
    by (simp add: parent_classes_value_def dict_get_dict_set_other)
  have pd: "parent_description_value (dict_set e ''_original_index'' (PInt n)) = parent_description_value e"
    by (simp add: parent_description_value_def dict_get_dict_set_other)
  have hr: "href_value (dict_set e ''_original_index'' (PInt n)) = href_value e"
    by (simp add: href_value_def dict_get_default_dict_set_other)
  consider "l = ''sibling_text''" | "l = ''parent_classes''" | "l = ''parent_description''"
    | "l = ''href''"
    | "l \<noteq> ''sibling_text''" "l \<noteq> ''parent_classes''" "l \<noteq> ''parent_description''" "l \<noteq> ''href''"
    by blast
  then show ?thesis
  proof cases
    case 1
    with h show ?thesis by (simp add: get_nested_value_def s)
  next
    case 2
    with h show ?thesis by (simp add: get_nested_value_def pc)
  next
    case 3
    with h show ?thesis by (simp add: get_nested_value_def pd)
  next
    case 4
    with h show ?thesis by (simp add: get_nested_value_def hr)
  next
    case 5
    then have a: "get_nested_value e l = standard_value e l"
      and b: "get_nested_value (dict_set e ''_original_index'' (PInt n)) l
              = standard_value (dict_set e ''_original_index'' (PInt n)) l"
      by (simp_all add: get_nested_value_def)
    from standard_value_indexed [of e n l] h show ?thesis
      unfolding a b by auto
  qed
qed

lemma result_nth:
  assumes "add_uniqueness_context xs pk h = Inr out"
  shows "length out = length xs"
    and "i < length xs \<Longrightarrow> out ! i = outcome pk h (primary_group pk xs i) (indexed xs ! i)"
proof -
  from add_uniqueness_context_spec [of xs pk h] assms
  have out: "out = map (final_record pk h (indexed xs)) (indexed xs)"
    by (simp add: indexed_def)
  then show "length out = length xs" by (simp add: indexed_def)
  show "out ! i = outcome pk h (primary_group pk xs i) (indexed xs ! i)" if "i < length xs"
    using that unfolding out by (simp add: indexed_def final_record_def primary_group_def)
qed

lemma untag: "i < length xs \<Longrightarrow> dict_pop (indexed xs ! i) ''_original_index'' = dict_pop (xs ! i) ''_original_index''"
  by (simp add: indexed_def indexed_nth)

lemma indexed_in_group:
  "i < length xs \<Longrightarrow> indexed xs ! i \<in> set (primary_group pk xs i)"
  unfolding primary_group_def by (rule subgroup_of_self) (simp add: indexed_def)

lemma primary_group_distinct: "distinct (primary_group pk xs i)"
  unfolding primary_group_def subgroup_of_def indexed_def
  using indexed_props(1) by simp

lemma assign_context_eq:
  "assign_context pk l v e =
     dict_set e ''uniqueness_context''
       (if l = ''id'' \<and> pk = ''text'' \<and> truthy (get_nested_value e ''href'')
        then level_value ''href'' (get_nested_value e ''href'') else level_value l v)"
  by (simp add: assign_context_def Let_def)

lemma href_value_cases: "get_nested_value e ''href'' = PNone \<or> (\<exists>s. get_nested_value e ''href'' = PStr s)"
  by (auto simp: get_nested_value_def href_value_def Let_def split: pyval.splits)

lemma truthy_href:
  "truthy (get_nested_value e ''href'') \<longleftrightarrow>
   get_nested_value e ''href'' \<noteq> PNone \<and> get_nested_value e ''href'' \<noteq> PStr ''''"
  using href_value_cases [of e] by auto

lemma resolved_form_None:
  "get_nested_value e l = PNone \<Longrightarrow> resolved_form pk l e = dict_pop e ''_original_index''"
  by (simp add: resolved_form_def)

lemma resolved_form_value:
  "get_nested_value e l \<noteq> PNone \<Longrightarrow>
   resolved_form pk l e = dict_pop (assign_context pk l (get_nested_value e l) e) ''_original_index''"
  by (simp add: resolved_form_def)

lemma map_of_resolved_context:
  "map_of (dict_pop (assign_context pk l v e) ''_original_index'') ''uniqueness_context'' =
     Some (if l = ''id'' \<and> pk = ''text'' \<and> truthy (get_nested_value e ''href'')
           then level_value ''href'' (get_nested_value e ''href'') else level_value l v)"
  by (simp add: assign_context_eq)

lemma resolved_form_shape:
  "resolved_form pk l e = dict_pop e ''_original_index''
   \<or> (\<exists>c. resolved_form pk l e = dict_set (dict_pop e ''_original_index'') ''uniqueness_context'' c)"
proof (cases "get_nested_value e l = PNone")
  case True
  then show ?thesis by (simp add: resolved_form_None)
next
  case False
  obtain c where "assign_context pk l (get_nested_value e l) e = dict_set e ''uniqueness_context'' c"
    using assign_context_eq by blast
  then have "resolved_form pk l e = dict_set (dict_pop e ''_original_index'') ''uniqueness_context'' c"
    using False by (simp add: resolved_form_value dict_pop_dict_set_other)
  then show ?thesis by blast
qed

lemma resolution_shape:
  "resolution pk h A e = dict_pop e ''_original_index''
   \<or> (\<exists>c. resolution pk h A e = dict_set (dict_pop e ''_original_index'') ''uniqueness_context'' c)"
proof (induction h arbitrary: A)
  case Nil
  then show ?case by simp
next
  case (Cons l ls)
  show ?case
  proof (cases "length (subgroup_of l A e) = 1")
    case True
    then show ?thesis using resolved_form_shape [of pk l e] by simp
  next
    case False
    then show ?thesis using Cons.IH by simp
  qed
qed

lemma outcome_shape:
  "outcome pk h G e = dict_pop e ''_original_index''
   \<or> (\<exists>c. outcome pk h G e = dict_set (dict_pop e ''_original_index'') ''uniqueness_context'' c)"
  unfolding outcome_def using resolution_shape [of pk h G e] by simp

lemma outcome_resolved:
  assumes "length G \<noteq> 1" and "k < length h" and "alone_at h G k e"
  shows "outcome pk h G e = resolved_form pk (h ! k) e"
  using assms by (simp add: outcome_def resolution_alone)

lemma map_of_untagged_context:
  "i < length xs \<Longrightarrow>
   map_of (dict_pop (indexed xs ! i) ''_original_index'') ''uniqueness_context''
     = map_of (xs ! i) ''uniqueness_context''"
  by (simp add: indexed_def indexed_nth)

lemma map_of_assign_context:
  "map_of (assign_context pk l v e) ''uniqueness_context'' =
     Some (if l = ''id'' \<and> pk = ''text'' \<and> truthy (get_nested_value e ''href'')
           then level_value ''href'' (get_nested_value e ''href'') else level_value l v)"
  by (simp add: assign_context_eq)


text \<open>
  C6, as amended. Every output record is the corresponding input record without the field
  \<^verbatim>\<open>_original_index\<close> (which the resolver uses as its tracker and removes), either as it
  is or with the field \<^verbatim>\<open>uniqueness_context\<close> set; no other field is added, removed or
  changed. For an input record that has no field \<^verbatim>\<open>_original_index\<close> the output is the
  input record, possibly with \<^verbatim>\<open>uniqueness_context\<close> set.
\<close>

theorem only_context_added:
  assumes "add_uniqueness_context xs pk h = Inr out" and "i < length xs"
  shows "out ! i = dict_pop (xs ! i) ''_original_index''
         \<or> (\<exists>c. out ! i = dict_set (dict_pop (xs ! i) ''_original_index'') ''uniqueness_context'' c)"
  using outcome_shape [of pk h "primary_group pk xs i" "indexed xs ! i"]
  unfolding result_nth(2) [OF assms] untag [OF assms(2)] .

text \<open>
  C1, as amended. For a record that shares its primary value with another record: when
  level \<open>k\<close> leaves it in a subgroup of size 1 and its value at that level is not
  \<^verbatim>\<open>None\<close>, the stored record is the one \<^verbatim>\<open>assign_context\<close> wrote the uniqueness
  context into; when its value at that level is \<^verbatim>\<open>None\<close> it is stored without a context
  (the source's guard "resolved by lacking a value others had"). Consequently every such
  output record carries a \<^verbatim>\<open>uniqueness_context\<close>, or was set apart at some level by
  lacking a value, or is irreducibly ambiguous: at every configured level another record
  of its group has the same value.
\<close>

theorem resolved_records_carry_context:
  assumes "add_uniqueness_context xs pk h = Inr out" and "i < length xs"
    and "length (primary_group pk xs i) \<noteq> 1"
  shows "(k < length h \<and> alone_at h (primary_group pk xs i) k (indexed xs ! i) \<and>
          get_nested_value (indexed xs ! i) (h ! k) \<noteq> PNone \<longrightarrow>
            out ! i = dict_pop (assign_context pk (h ! k)
                        (get_nested_value (indexed xs ! i) (h ! k)) (indexed xs ! i))
                        ''_original_index'')
       \<and> (k < length h \<and> alone_at h (primary_group pk xs i) k (indexed xs ! i) \<and>
          get_nested_value (indexed xs ! i) (h ! k) = PNone \<longrightarrow>
            out ! i = dict_pop (xs ! i) ''_original_index'')
       \<and> (map_of (out ! i) ''uniqueness_context'' \<noteq> None
          \<or> (\<exists>k<length h. alone_at h (primary_group pk xs i) k (indexed xs ! i) \<and>
                get_nested_value (indexed xs ! i) (h ! k) = PNone)
          \<or> (\<forall>l \<in> set h. \<exists>e' \<in> set (primary_group pk xs i). e' \<noteq> indexed xs ! i \<and>
                py_eq (get_nested_value e' l) (get_nested_value (indexed xs ! i) l)))"
proof -
  define e where "e = indexed xs ! i"
  define G where "G = primary_group pk xs i"
  have o: "out ! i = outcome pk h G e"
    unfolding e_def G_def using result_nth(2) [OF assms(1,2)] .
  have ne: "length G \<noteq> 1" using assms(3) by (simp add: G_def)
  have eG: "e \<in> set G" unfolding e_def G_def using assms(2) by (rule indexed_in_group)
  have dG: "distinct G" unfolding G_def by (rule primary_group_distinct)
  have a: "out ! i = dict_pop (assign_context pk (h ! k) (get_nested_value e (h ! k)) e) ''_original_index''"
    if "k < length h" "alone_at h G k e" "get_nested_value e (h ! k) \<noteq> PNone" for k
    unfolding o outcome_resolved [OF ne that(1,2)] using that(3) by (rule resolved_form_value)
  have b: "out ! i = dict_pop (xs ! i) ''_original_index''"
    if "k < length h" "alone_at h G k e" "get_nested_value e (h ! k) = PNone" for k
    unfolding o outcome_resolved [OF ne that(1,2)] resolved_form_None [OF that(3)]
    unfolding e_def by (rule untag [OF assms(2)])
  have c: "map_of (out ! i) ''uniqueness_context'' \<noteq> None
          \<or> (\<exists>k<length h. alone_at h G k e \<and> get_nested_value e (h ! k) = PNone)
          \<or> (\<forall>l \<in> set h. \<exists>e' \<in> set G. e' \<noteq> e \<and>
                py_eq (get_nested_value e' l) (get_nested_value e l))"
  proof -
    from resolved_or_ambiguous [OF eG, of h] show ?thesis
    proof
      assume "e \<in> set (still_ambiguous h G)"
      from irreducible [OF dG this] show ?thesis by blast
    next
      assume "\<exists>k<length h. alone_at h G k e"
      then obtain k where k: "k < length h" "alone_at h G k e" by blast
      show ?thesis
      proof (cases "get_nested_value e (h ! k) = PNone")
        case True
        with k show ?thesis by blast
      next
        case False
        from a [OF k False] have "map_of (out ! i) ''uniqueness_context'' \<noteq> None"
          by (simp add: map_of_assign_context)
        then show ?thesis by blast
      qed
    qed
  qed
  show ?thesis using a b c unfolding e_def G_def by blast
qed

text \<open>
  C2, as amended. A record that receives a \<^verbatim>\<open>uniqueness_context\<close> (it had none, the
  output has one) was resolved at the first level \<open>k\<close>, in the order of the hierarchy, at
  which its subgroup among the records still ambiguous has size 1: at every earlier level
  it was still ambiguous in a subgroup of another size. Its value at level \<open>k\<close> is not
  \<^verbatim>\<open>None\<close>. The context reports that level and the record's value at it, except in the
  link case (primary key \<^verbatim>\<open>text\<close>, level \<^verbatim>\<open>id\<close>, href-derived value neither \<^verbatim>\<open>None\<close> nor
  empty), where it reports \<^verbatim>\<open>href\<close> and the href-derived value instead.
\<close>

theorem first_level_reported:
  assumes "add_uniqueness_context xs pk h = Inr out" and "i < length xs"
    and "map_of (xs ! i) ''uniqueness_context'' = None"
    and "map_of (out ! i) ''uniqueness_context'' = Some c"
  shows "\<exists>k<length h.
           alone_at h (primary_group pk xs i) k (indexed xs ! i)
         \<and> (\<forall>j<k. indexed xs ! i \<in> set (ambiguous_before h (primary_group pk xs i) j) \<and>
                length (subgroup_of (h ! j) (ambiguous_before h (primary_group pk xs i) j)
                          (indexed xs ! i)) \<noteq> 1)
         \<and> get_nested_value (indexed xs ! i) (h ! k) \<noteq> PNone
         \<and> c = (if pk = ''text'' \<and> h ! k = ''id''
                    \<and> get_nested_value (indexed xs ! i) ''href'' \<noteq> PNone
                    \<and> get_nested_value (indexed xs ! i) ''href'' \<noteq> PStr ''''
                 then level_value ''href'' (get_nested_value (indexed xs ! i) ''href'')
                 else level_value (h ! k) (get_nested_value (indexed xs ! i) (h ! k)))"
proof -
  define e where "e = indexed xs ! i"
  define G where "G = primary_group pk xs i"
  have o: "out ! i = outcome pk h G e"
    unfolding e_def G_def using result_nth(2) [OF assms(1,2)] .
  have eG: "e \<in> set G" unfolding e_def G_def using assms(2) by (rule indexed_in_group)
  have plain: "out ! i \<noteq> dict_pop e ''_original_index''"
    using assms(3,4) map_of_untagged_context [OF assms(2)] unfolding e_def by auto
  have ne: "length G \<noteq> 1" using plain o by (auto simp: outcome_def)
  have "e \<notin> set (still_ambiguous h G)"
    using plain o ne resolution_still_ambiguous [of e h G pk] by (auto simp: outcome_def)
  with resolved_or_ambiguous [OF eG, of h] obtain k where
    k: "k < length h" "alone_at h G k e" by blast
  have r: "out ! i = resolved_form pk (h ! k) e"
    unfolding o by (rule outcome_resolved [OF ne k])
  have v: "get_nested_value e (h ! k) \<noteq> PNone"
    using plain r resolved_form_None by metis
  have "map_of (out ! i) ''uniqueness_context'' =
          Some (if h ! k = ''id'' \<and> pk = ''text'' \<and> truthy (get_nested_value e ''href'')
                then level_value ''href'' (get_nested_value e ''href'')
                else level_value (h ! k) (get_nested_value e (h ! k)))"
    unfolding r resolved_form_value [OF v] by (rule map_of_resolved_context)
  with assms(4) have c: "c = (if pk = ''text'' \<and> h ! k = ''id''
                    \<and> get_nested_value e ''href'' \<noteq> PNone
                    \<and> get_nested_value e ''href'' \<noteq> PStr ''''
                 then level_value ''href'' (get_nested_value e ''href'')
                 else level_value (h ! k) (get_nested_value e (h ! k)))"
    by (auto simp: truthy_href)
  have earlier: "e \<in> set (ambiguous_before h G j) \<and>
        length (subgroup_of (h ! j) (ambiguous_before h G j) e) \<noteq> 1" if "j < k" for j
  proof -
    have "e \<in> set (ambiguous_before h G k)" using k(2) by (simp add: alone_at_def)
    from ambiguous_later [OF this that] that k(1) show ?thesis by simp
  qed
  show ?thesis using k v c earlier unfolding e_def G_def by blast
qed

text \<open>
  C3, as amended. For a record resolved at level \<open>k\<close> with a value that is not \<^verbatim>\<open>None\<close>:
  when the primary key is \<^verbatim>\<open>text\<close>, the level is \<^verbatim>\<open>id\<close> and the href-derived value is
  neither \<^verbatim>\<open>None\<close> nor the empty string, the context reports level \<^verbatim>\<open>href\<close> with the
  href-derived value; in every other case it reports the discriminating level and the
  record's value at it.
\<close>

theorem href_preferred_over_id:
  assumes "add_uniqueness_context xs pk h = Inr out" and "i < length xs"
    and "length (primary_group pk xs i) \<noteq> 1" and "k < length h"
    and "alone_at h (primary_group pk xs i) k (indexed xs ! i)"
    and "get_nested_value (indexed xs ! i) (h ! k) \<noteq> PNone"
  shows "map_of (out ! i) ''uniqueness_context'' =
           Some (if pk = ''text'' \<and> h ! k = ''id''
                    \<and> get_nested_value (indexed xs ! i) ''href'' \<noteq> PNone
                    \<and> get_nested_value (indexed xs ! i) ''href'' \<noteq> PStr ''''
                 then level_value ''href'' (get_nested_value (indexed xs ! i) ''href'')
                 else level_value (h ! k) (get_nested_value (indexed xs ! i) (h ! k)))"
proof -
  have "out ! i = resolved_form pk (h ! k) (indexed xs ! i)"
    unfolding result_nth(2) [OF assms(1,2)] by (rule outcome_resolved [OF assms(3,4,5)])
  then show ?thesis
    unfolding resolved_form_value [OF assms(6)]
    by (auto simp: map_of_assign_context truthy_href)
qed

text \<open>
  C10, as amended. The records whose primary value is \<^verbatim>\<open>None\<close> form one group, as records
  sharing a primary identifier do. If the record is the only one, it is returned as it is
  but for the field \<^verbatim>\<open>_original_index\<close>, which the resolver removes: a record without that
  field is returned unchanged. If there are several, the record is resolved through the
  context hierarchy by the same rule as a record of any other ambiguous group.
\<close>

theorem none_primary_grouped:
  assumes "add_uniqueness_context xs pk h = Inr out" and "i < length xs"
    and "get_nested_value (indexed xs ! i) pk = PNone"
  shows "primary_group pk xs i = filter (\<lambda>e. get_nested_value e pk = PNone) (indexed xs)
       \<and> (length (primary_group pk xs i) = 1 \<longrightarrow>
            out ! i = dict_pop (xs ! i) ''_original_index''
          \<and> (map_of (xs ! i) ''_original_index'' = None \<longrightarrow> out ! i = xs ! i))
       \<and> (length (primary_group pk xs i) \<noteq> 1 \<longrightarrow>
            out ! i = resolution pk h (primary_group pk xs i) (indexed xs ! i))"
proof -
  have "primary_group pk xs i = filter (\<lambda>e. get_nested_value e pk = PNone) (indexed xs)"
    using assms(3) by (simp add: primary_group_def subgroup_of_def)
  moreover have "out ! i = dict_pop (xs ! i) ''_original_index''"
    if "length (primary_group pk xs i) = 1"
    unfolding result_nth(2) [OF assms(1,2)] using that
    by (simp add: outcome_def untag [OF assms(2)])
  moreover have "dict_pop (xs ! i) ''_original_index'' = xs ! i"
    if "map_of (xs ! i) ''_original_index'' = None"
    using that by (rule dict_pop_absent)
  moreover have "out ! i = resolution pk h (primary_group pk xs i) (indexed xs ! i)"
    if "length (primary_group pk xs i) \<noteq> 1"
    unfolding result_nth(2) [OF assms(1,2)] using that by (simp add: outcome_def)
  ultimately show ?thesis by simp
qed

lemma follow_keys_unreachable:
  "ks \<noteq> [] \<Longrightarrow> lookup_path ks v = None \<or> lookup_path ks v = Some PNone \<Longrightarrow> follow_keys ks v = None"
proof (induction ks arbitrary: v)
  case Nil
  then show ?case by simp
next
  case (Cons k ks)
  show ?case
  proof (cases v)
    case (PDict d)
    show ?thesis
    proof (cases "map_of d k")
      case None
      then show ?thesis using PDict by (simp add: dict_get_def)
    next
      case (Some w)
      show ?thesis
      proof (cases "ks = []")
        case True
        then show ?thesis using Cons.prems PDict Some by (auto simp: dict_get_def)
      next
        case False
        from Cons.prems PDict Some have "lookup_path ks w = None \<or> lookup_path ks w = Some PNone"
          by simp
        from Cons.IH [OF False this] show ?thesis using PDict Some by (simp add: dict_get_def)
      qed
    qed
  qed (use Cons.prems in simp_all)
qed

lemma str_split_nonempty: "str_split sep s \<noteq> []"
  by (subst str_split.simps) (simp split: list.splits)

lemma group_of_None:
  assumes "group_by_value l A [] = Inr g" and "e \<in> set A" and "get_nested_value e l = PNone"
  shows "(PNone, filter (\<lambda>e. get_nested_value e l = PNone) A) \<in> set g"
proof -
  have g: "grouped l A g"
    using group_by_value_grouped [OF grouped_Nil assms(1)] by simp
  from grouped_cover [OF g assms(2)] obtain k where k: "(k, subgroup_of l A e) \<in> set g" by blast
  have s: "subgroup_of l A e = filter (\<lambda>e. get_nested_value e l = PNone) A"
    using assms(3) by (simp add: subgroup_of_def)
  from g k have ne: "subgroup_of l A e \<noteq> []" and hd: "get_nested_value (hd (subgroup_of l A e)) l = k"
    unfolding grouped_def by blast+
  from ne have "hd (subgroup_of l A e) \<in> set (subgroup_of l A e)" by simp
  then have "get_nested_value (hd (subgroup_of l A e)) l = PNone" unfolding s by simp
  with hd k s show ?thesis by simp
qed

lemma follow_keys_reachable:
  "ks \<noteq> [] \<Longrightarrow> lookup_path ks v = Some w \<Longrightarrow> w \<noteq> PNone \<Longrightarrow> follow_keys ks v = Some w"
proof (induction ks arbitrary: v)
  case Nil
  then show ?case by simp
next
  case (Cons k ks)
  show ?case
  proof (cases v)
    case (PDict d)
    show ?thesis
    proof (cases "map_of d k")
      case None
      then show ?thesis using Cons.prems PDict by simp
    next
      case (Some u)
      show ?thesis
      proof (cases "ks = []")
        case True
        then show ?thesis using Cons.prems PDict Some by (simp add: dict_get_def)
      next
        case False
        from Cons.prems PDict Some have l: "lookup_path ks u = Some w" by simp
        have "u \<noteq> PNone"
        proof
          assume "u = PNone"
          with l False show False by (cases ks) simp_all
        qed
        with Cons.IH [OF False l Cons.prems(3)] show ?thesis
          using PDict Some by (simp add: dict_get_def)
      qed
    qed
  qed (use Cons.prems in simp_all)
qed

lemma py_eq_Str [simp]: "py_eq v (PStr s) \<longleftrightarrow> v = PStr s"
  by (cases v) (simp_all add: py_eq_def)

lemma group_of_Str:
  assumes "group_by_value l A [] = Inr g" and "e \<in> set A" and "get_nested_value e l = PStr s"
  shows "(PStr s, filter (\<lambda>e. get_nested_value e l = PStr s) A) \<in> set g"
proof -
  have g: "grouped l A g"
    using group_by_value_grouped [OF grouped_Nil assms(1)] by simp
  from grouped_cover [OF g assms(2)] obtain k where k: "(k, subgroup_of l A e) \<in> set g" by blast
  have s: "subgroup_of l A e = filter (\<lambda>e. get_nested_value e l = PStr s) A"
    using assms(3) by (simp add: subgroup_of_def)
  from g k have ne: "subgroup_of l A e \<noteq> []" and hd: "get_nested_value (hd (subgroup_of l A e)) l = k"
    unfolding grouped_def by blast+
  from ne have "hd (subgroup_of l A e) \<in> set (subgroup_of l A e)" by simp
  then have "get_nested_value (hd (subgroup_of l A e)) l = PStr s" unfolding s by simp
  with hd k s show ?thesis by simp
qed

text \<open>
  C5. In \<^verbatim>\<open>get_nested_value\<close> a missing or unreachable value resolves to \<^verbatim>\<open>None\<close>: a dotted
  path that leaves the nested dictionaries or ends in \<^verbatim>\<open>None\<close>; the key \<^verbatim>\<open>classes\<close> with an
  empty list; a parent-derived key without parent (absent, \<^verbatim>\<open>None\<close> or empty); the key
  \<^verbatim>\<open>parent_classes\<close> when the parent has no classes (absent, \<^verbatim>\<open>None\<close> or an empty list);
  \<^verbatim>\<open>href\<close> without href (absent, \<^verbatim>\<open>None\<close> or empty); and \<^verbatim>\<open>sibling_text\<close> with no
  next-sibling text and a missing previous-sibling text. The marker is not the empty
  string: a string the path reaches, the empty one included, is returned as it is, and the
  grouping files the records with the empty string and the records without a value under
  two keys. Records without a value still take part in the grouping: all of them form one
  subgroup, filed under \<^verbatim>\<open>None\<close>. The key \<^verbatim>\<open>sibling_text\<close> gives the next-sibling text
  when it is present (not \<^verbatim>\<open>None\<close> and not empty), else the previous-sibling text.
\<close>

theorem missing_value_is_None:
  "(l \<notin> set composite_keys \<longrightarrow>
      (lookup_path (str_split ''.'' l) (PDict d) = None
       \<or> lookup_path (str_split ''.'' l) (PDict d) = Some PNone) \<longrightarrow>
      get_nested_value d l = PNone)
   \<and> (map_of d ''classes'' = Some (PList []) \<longrightarrow> get_nested_value d ''classes'' = PNone)
   \<and> (\<not> truthy (dict_get d ''parent'') \<longrightarrow>
        get_nested_value d ''parent_classes'' = PNone \<and>
        get_nested_value d ''parent_description'' = PNone)
   \<and> (dict_get d ''parent'' = PDict p \<longrightarrow> \<not> truthy (dict_get p ''classes'') \<longrightarrow>
        get_nested_value d ''parent_classes'' = PNone)
   \<and> (\<not> truthy (dict_get_default d ''href'' (PStr '''')) \<longrightarrow>
        get_nested_value d ''href'' = PNone)
   \<and> (\<not> truthy (dict_get d ''next_sibling_text'') \<and> dict_get d ''prev_sibling_text'' = PNone \<longrightarrow>
        get_nested_value d ''sibling_text'' = PNone)
   \<and> (l \<notin> set composite_keys \<longrightarrow> lookup_path (str_split ''.'' l) (PDict d) = Some (PStr s) \<longrightarrow>
        get_nested_value d l = PStr s)
   \<and> (group_by_value l A [] = Inr g \<longrightarrow> (\<exists>e \<in> set A. get_nested_value e l = PNone) \<longrightarrow>
        (PNone, filter (\<lambda>e. get_nested_value e l = PNone) A) \<in> set g)
   \<and> (group_by_value l A [] = Inr g \<longrightarrow> (\<exists>e \<in> set A. get_nested_value e l = PStr '''') \<longrightarrow>
        (PStr '''', filter (\<lambda>e. get_nested_value e l = PStr '''') A) \<in> set g)
   \<and> get_nested_value d ''sibling_text'' =
        (if truthy (dict_get d ''next_sibling_text'') then dict_get d ''next_sibling_text''
         else dict_get d ''prev_sibling_text'')"
proof -
  have a: "get_nested_value d l = PNone"
    if "l \<notin> set composite_keys"
      and "lookup_path (str_split ''.'' l) (PDict d) = None
           \<or> lookup_path (str_split ''.'' l) (PDict d) = Some PNone"
  proof -
    have "follow_keys (str_split ''.'' l) (PDict d) = None"
      by (rule follow_keys_unreachable [OF str_split_nonempty that(2)])
    moreover have "get_nested_value d l = standard_value d l"
      using that(1) by (simp add: get_nested_value_def composite_keys_def)
    ultimately show ?thesis by (simp add: standard_value_def)
  qed
  have a': "get_nested_value d l = PStr s"
    if "l \<notin> set composite_keys"
      and "lookup_path (str_split ''.'' l) (PDict d) = Some (PStr s)"
  proof -
    have "follow_keys (str_split ''.'' l) (PDict d) = Some (PStr s)"
      by (rule follow_keys_reachable [OF str_split_nonempty that(2)]) simp
    moreover have "get_nested_value d l = standard_value d l"
      using that(1) by (simp add: get_nested_value_def composite_keys_def)
    ultimately show ?thesis by (simp add: standard_value_def)
  qed
  have cl: "get_nested_value d ''classes'' = PNone" if "map_of d ''classes'' = Some (PList [])"
  proof -
    have "str_split ''.'' ''classes'' = [''classes'']" by code_simp
    then have "follow_keys (str_split ''.'' ''classes'') (PDict d) = Some (PList [])"
      using that by (simp add: dict_get_def)
    then show ?thesis by (simp add: get_nested_value_def standard_value_def)
  qed
  have b: "get_nested_value d ''parent_classes'' = PNone \<and>
           get_nested_value d ''parent_description'' = PNone"
    if "\<not> truthy (dict_get d ''parent'')"
    using that by (simp add: get_nested_value_def parent_classes_value_def parent_description_value_def)
  have b': "get_nested_value d ''parent_classes'' = PNone"
    if "dict_get d ''parent'' = PDict p" "\<not> truthy (dict_get p ''classes'')"
    using that by (simp add: get_nested_value_def parent_classes_value_def)
  have c: "get_nested_value d ''href'' = PNone"
    if "\<not> truthy (dict_get_default d ''href'' (PStr ''''))"
    using that by (simp add: get_nested_value_def href_value_def)
  have s: "get_nested_value d ''sibling_text'' =
        (if truthy (dict_get d ''next_sibling_text'') then dict_get d ''next_sibling_text''
         else dict_get d ''prev_sibling_text'')"
    by (simp add: get_nested_value_def sibling_text_value_def py_or_def)
  have e: "(PNone, filter (\<lambda>e. get_nested_value e l = PNone) A) \<in> set g"
    if "group_by_value l A [] = Inr g" "\<exists>e \<in> set A. get_nested_value e l = PNone"
    using that group_of_None by blast
  have e': "(PStr '''', filter (\<lambda>e. get_nested_value e l = PStr '''') A) \<in> set g"
    if "group_by_value l A [] = Inr g" "\<exists>e \<in> set A. get_nested_value e l = PStr ''''"
    using that group_of_Str by blast
  show ?thesis using a a' cl b b' c s e e' by simp
qed

text \<open>
  C1 at the first record of the buttons example, resolved at level \<^verbatim>\<open>id\<close>.
\<close>

theorem resolved_records_carry_context_witness:
  "add_uniqueness_context example_buttons ''text'' [''id'', ''name''] =
     Inr [[(''text'', PStr ''Submit''), (''id'', PStr ''save''), (''name'', PStr ''go''),
           (''uniqueness_context'', level_value ''id'' (PStr ''save''))],
          [(''text'', PStr ''Submit''), (''id'', PNone), (''name'', PStr ''go'')],
          [(''text'', PStr ''Submit''), (''id'', PNone), (''name'', PStr ''go'')]]
   \<and> length (primary_group ''text'' example_buttons 0) \<noteq> 1
   \<and> alone_at [''id'', ''name''] (primary_group ''text'' example_buttons 0) 0 (indexed example_buttons ! 0)
   \<and> [[(''text'', PStr ''Submit''), (''id'', PStr ''save''), (''name'', PStr ''go''),
           (''uniqueness_context'', level_value ''id'' (PStr ''save''))],
          [(''text'', PStr ''Submit''), (''id'', PNone), (''name'', PStr ''go'')],
          [(''text'', PStr ''Submit''), (''id'', PNone), (''name'', PStr ''go'')]] ! 0 =
       dict_pop (assign_context ''text'' ''id'' (PStr ''save'') (indexed example_buttons ! 0))
         ''_original_index''"
proof -
  let ?out = "[[(''text'', PStr ''Submit''), (''id'', PStr ''save''), (''name'', PStr ''go''),
           (''uniqueness_context'', level_value ''id'' (PStr ''save''))],
          [(''text'', PStr ''Submit''), (''id'', PNone), (''name'', PStr ''go'')],
          [(''text'', PStr ''Submit''), (''id'', PNone), (''name'', PStr ''go'')]]"
  have run: "add_uniqueness_context example_buttons ''text'' [''id'', ''name''] = Inr ?out"
    by code_simp
  have i: "0 < length example_buttons" by code_simp
  have ne: "length (primary_group ''text'' example_buttons 0) \<noteq> 1" by code_simp
  have al: "alone_at [''id'', ''name''] (primary_group ''text'' example_buttons 0) 0
              (indexed example_buttons ! 0)" by code_simp
  have v: "get_nested_value (indexed example_buttons ! 0) ([''id'', ''name''] ! 0) = PStr ''save''"
    by code_simp
  from resolved_records_carry_context [OF run i ne, where k = 0]
  have "0 < length [''id'', ''name''] \<and>
        alone_at [''id'', ''name''] (primary_group ''text'' example_buttons 0) 0 (indexed example_buttons ! 0) \<and>
        get_nested_value (indexed example_buttons ! 0) ([''id'', ''name''] ! 0) \<noteq> PNone \<longrightarrow>
        ?out ! 0 = dict_pop (assign_context ''text'' ([''id'', ''name''] ! 0)
                    (get_nested_value (indexed example_buttons ! 0) ([''id'', ''name''] ! 0)) (indexed example_buttons ! 0))
                    ''_original_index''"
    by (rule conjunct1)
  with al v have "?out ! 0 = dict_pop (assign_context ''text'' ''id'' (PStr ''save'')
       (indexed example_buttons ! 0)) ''_original_index''"
    by simp
  with run ne al show ?thesis by simp
qed

text \<open>
  C1 as stated fails: the second record is alone in its subgroup at level \<^verbatim>\<open>id\<close>, where
  its value is \<^verbatim>\<open>None\<close>; it shares its primary value with the first record, gets no
  \<^verbatim>\<open>uniqueness_context\<close>, and the level \<^verbatim>\<open>id\<close> does distinguish it from its group.
\<close>

theorem lone_None_counterexample:
  "add_uniqueness_context example_lone ''text_snippet'' [''id''] =
     Inr [[(''text_snippet'', PStr ''Read the terms''), (''id'', PStr ''terms''),
           (''uniqueness_context'', level_value ''id'' (PStr ''terms''))],
          [(''text_snippet'', PStr ''Read the terms'')]]
   \<and> length (primary_group ''text_snippet'' example_lone 1) = 2
   \<and> alone_at [''id''] (primary_group ''text_snippet'' example_lone 1) 0 (indexed example_lone ! 1)
   \<and> map_of [(''text_snippet'', PStr ''Read the terms'')] ''uniqueness_context'' = None"
  by code_simp

text \<open>
  C2 at the first record of the paragraphs example, resolved at the second level.
\<close>

theorem first_level_reported_witness:
  "add_uniqueness_context example_paragraphs ''text_snippet'' [''id'', ''parent.id''] =
     Inr [example_paragraphs ! 0 @ [(''uniqueness_context'', level_value ''parent.id'' (PStr ''features''))],
          example_paragraphs ! 1 @ [(''uniqueness_context'', level_value ''parent.id'' (PStr ''pricing''))]]
   \<and> (\<exists>k<length [''id'', ''parent.id''].
         alone_at [''id'', ''parent.id''] (primary_group ''text_snippet'' example_paragraphs 0) k
           (indexed example_paragraphs ! 0)
       \<and> (\<forall>j<k. indexed example_paragraphs ! 0 \<in>
                 set (ambiguous_before [''id'', ''parent.id''] (primary_group ''text_snippet'' example_paragraphs 0) j) \<and>
                length (subgroup_of ([''id'', ''parent.id''] ! j)
                          (ambiguous_before [''id'', ''parent.id''] (primary_group ''text_snippet'' example_paragraphs 0) j)
                          (indexed example_paragraphs ! 0)) \<noteq> 1)
       \<and> get_nested_value (indexed example_paragraphs ! 0) ([''id'', ''parent.id''] ! k) \<noteq> PNone
       \<and> level_value ''parent.id'' (PStr ''features'') =
           (if ''text_snippet'' = ''text'' \<and> [''id'', ''parent.id''] ! k = ''id''
                \<and> get_nested_value (indexed example_paragraphs ! 0) ''href'' \<noteq> PNone
                \<and> get_nested_value (indexed example_paragraphs ! 0) ''href'' \<noteq> PStr ''''
            then level_value ''href'' (get_nested_value (indexed example_paragraphs ! 0) ''href'')
            else level_value ([''id'', ''parent.id''] ! k)
                   (get_nested_value (indexed example_paragraphs ! 0) ([''id'', ''parent.id''] ! k))))"
proof -
  let ?out = "[example_paragraphs ! 0 @ [(''uniqueness_context'', level_value ''parent.id'' (PStr ''features''))],
          example_paragraphs ! 1 @ [(''uniqueness_context'', level_value ''parent.id'' (PStr ''pricing''))]]"
  have run: "add_uniqueness_context example_paragraphs ''text_snippet'' [''id'', ''parent.id''] = Inr ?out"
    by code_simp
  have i: "0 < length example_paragraphs" by code_simp
  have before: "map_of (example_paragraphs ! 0) ''uniqueness_context'' = None" by code_simp
  have after: "map_of (?out ! 0) ''uniqueness_context'' = Some (level_value ''parent.id'' (PStr ''features''))"
    by code_simp
  from first_level_reported [OF run i before after] run show ?thesis by blast
qed

text \<open>
  C2 as stated fails: both links are resolved at level \<^verbatim>\<open>id\<close>, the only level of the
  hierarchy, and the assigned level is \<^verbatim>\<open>href\<close>.
\<close>

theorem href_level_counterexample:
  "add_uniqueness_context example_nav_links ''text'' [''id''] =
     Inr [example_nav_links ! 0 @ [(''uniqueness_context'', level_value ''href'' (PStr ''products''))],
          example_nav_links ! 1 @ [(''uniqueness_context'', level_value ''href'' (PStr ''catalog''))]]
   \<and> ''href'' \<notin> set [''id'']"
  by code_simp

text \<open>
  C3 at the first record of the links example.
\<close>

theorem href_preferred_over_id_witness:
  "add_uniqueness_context example_links ''text'' [''id''] =
     Inr [example_links ! 0 @ [(''uniqueness_context'', level_value ''href'' (PStr ''about''))],
          example_links ! 1 @ [(''uniqueness_context'', level_value ''id'' (PStr ''logo''))]]
   \<and> alone_at [''id''] (primary_group ''text'' example_links 0) 0 (indexed example_links ! 0)
   \<and> get_nested_value (indexed example_links ! 0) ''href'' = PStr ''about''
   \<and> map_of ([example_links ! 0 @ [(''uniqueness_context'', level_value ''href'' (PStr ''about''))],
          example_links ! 1 @ [(''uniqueness_context'', level_value ''id'' (PStr ''logo''))]] ! 0)
        ''uniqueness_context'' = Some (level_value ''href'' (PStr ''about''))"
proof -
  let ?out = "[example_links ! 0 @ [(''uniqueness_context'', level_value ''href'' (PStr ''about''))],
          example_links ! 1 @ [(''uniqueness_context'', level_value ''id'' (PStr ''logo''))]]"
  have run: "add_uniqueness_context example_links ''text'' [''id''] = Inr ?out" by code_simp
  have i: "0 < length example_links" by code_simp
  have ne: "length (primary_group ''text'' example_links 0) \<noteq> 1" by code_simp
  have k: "0 < length [''id'']" by simp
  have al: "alone_at [''id''] (primary_group ''text'' example_links 0) 0 (indexed example_links ! 0)"
    by code_simp
  have v: "get_nested_value (indexed example_links ! 0) ([''id''] ! 0) \<noteq> PNone" by code_simp
  have hr: "get_nested_value (indexed example_links ! 0) ''href'' = PStr ''about''" by code_simp
  from href_preferred_over_id [OF run i ne k al v]
  have "map_of (?out ! 0) ''uniqueness_context'' = Some (level_value ''href'' (PStr ''about''))"
    unfolding hr by simp
  with run al hr show ?thesis by simp
qed

text \<open>
  C3 as stated fails on a non-null href-derived value that is empty: the href
  \<^verbatim>\<open>http://example.com/\<close> gives the empty string, the source tests \<^verbatim>\<open>if href:\<close>, and the
  context reports level \<^verbatim>\<open>id\<close>.
\<close>

theorem empty_href_counterexample:
  "get_nested_value (indexed example_links ! 1) ''href'' = PStr ''''
   \<and> PStr '''' \<noteq> PNone
   \<and> alone_at [''id''] (primary_group ''text'' example_links 1) 0 (indexed example_links ! 1)
   \<and> add_uniqueness_context example_links ''text'' [''id''] =
     Inr [example_links ! 0 @ [(''uniqueness_context'', level_value ''href'' (PStr ''about''))],
          example_links ! 1 @ [(''uniqueness_context'', level_value ''id'' (PStr ''logo''))]]"
  by code_simp



text \<open>
  C6 at the first record of the buttons example.
\<close>

theorem only_context_added_witness:
  "add_uniqueness_context example_buttons ''text'' [''id'', ''name''] =
     Inr [example_buttons ! 0 @ [(''uniqueness_context'', level_value ''id'' (PStr ''save''))],
          example_buttons ! 1, example_buttons ! 2]
   \<and> ([example_buttons ! 0 @ [(''uniqueness_context'', level_value ''id'' (PStr ''save''))],
          example_buttons ! 1, example_buttons ! 2] ! 0
          = dict_pop (example_buttons ! 0) ''_original_index''
      \<or> (\<exists>c. [example_buttons ! 0 @ [(''uniqueness_context'', level_value ''id'' (PStr ''save''))],
          example_buttons ! 1, example_buttons ! 2] ! 0
          = dict_set (dict_pop (example_buttons ! 0) ''_original_index'') ''uniqueness_context'' c))"
proof -
  let ?out = "[example_buttons ! 0 @ [(''uniqueness_context'', level_value ''id'' (PStr ''save''))],
          example_buttons ! 1, example_buttons ! 2]"
  have run: "add_uniqueness_context example_buttons ''text'' [''id'', ''name''] = Inr ?out"
    by code_simp
  have i: "0 < length example_buttons" by code_simp
  from only_context_added [OF run i] run show ?thesis by blast
qed

text \<open>
  C6 as stated, for every input element, fails: a field \<^verbatim>\<open>_original_index\<close> of the input
  record is overwritten by the tracker and removed with it.
\<close>

theorem tracker_removed_counterexample:
  "add_uniqueness_context example_tracked ''text'' [''id''] = Inr [[(''text'', PStr ''Home'')]]
   \<and> example_tracked ! 0 = [(''text'', PStr ''Home''), (''_original_index'', PInt 7)]"
  by code_simp

text \<open>
  C10 at the icons example, where two icons without \<^verbatim>\<open>aria_label\<close> receive a context from
  their titles, and at an example with a single such icon, which is returned unchanged.
\<close>

theorem none_primary_grouped_witness:
  "add_uniqueness_context example_icons ''aria_label'' [''aria_label'', ''title''] =
     Inr [example_icons ! 0 @ [(''uniqueness_context'', level_value ''title'' (PStr ''Search''))],
          example_icons ! 1 @ [(''uniqueness_context'', level_value ''title'' (PStr ''Menu''))],
          example_icons ! 2]
   \<and> get_nested_value (indexed example_icons ! 0) ''aria_label'' = PNone
   \<and> primary_group ''aria_label'' example_icons 0 = [indexed example_icons ! 0, indexed example_icons ! 1]
   \<and> example_icons ! 0 @ [(''uniqueness_context'', level_value ''title'' (PStr ''Search''))]
        = resolution ''aria_label'' [''aria_label'', ''title''] (primary_group ''aria_label'' example_icons 0)
            (indexed example_icons ! 0)
   \<and> add_uniqueness_context example_single_None ''aria_label'' [''classes''] = Inr example_single_None
   \<and> get_nested_value (indexed example_single_None ! 0) ''aria_label'' = PNone
   \<and> length (primary_group ''aria_label'' example_single_None 0) = 1
   \<and> map_of (example_single_None ! 0) ''_original_index'' = None
   \<and> example_single_None ! 0 = dict_pop (example_single_None ! 0) ''_original_index''"
proof -
  let ?out = "[example_icons ! 0 @ [(''uniqueness_context'', level_value ''title'' (PStr ''Search''))],
          example_icons ! 1 @ [(''uniqueness_context'', level_value ''title'' (PStr ''Menu''))],
          example_icons ! 2]"
  have run: "add_uniqueness_context example_icons ''aria_label'' [''aria_label'', ''title''] = Inr ?out"
    by code_simp
  have i: "0 < length example_icons" by code_simp
  have v: "get_nested_value (indexed example_icons ! 0) ''aria_label'' = PNone" by code_simp
  have g: "primary_group ''aria_label'' example_icons 0 = [indexed example_icons ! 0, indexed example_icons ! 1]"
    by code_simp
  have run1: "add_uniqueness_context example_single_None ''aria_label'' [''classes''] = Inr example_single_None"
    by code_simp
  have i1: "0 < length example_single_None" by code_simp
  have v1: "get_nested_value (indexed example_single_None ! 0) ''aria_label'' = PNone" by code_simp
  have l1: "length (primary_group ''aria_label'' example_single_None 0) = 1" by code_simp
  have t1: "map_of (example_single_None ! 0) ''_original_index'' = None" by code_simp
  from none_primary_grouped [OF run i v]
  have "length (primary_group ''aria_label'' example_icons 0) \<noteq> 1 \<longrightarrow>
        ?out ! 0 = resolution ''aria_label'' [''aria_label'', ''title'']
                     (primary_group ''aria_label'' example_icons 0) (indexed example_icons ! 0)"
    by blast
  then have many: "?out ! 0 = resolution ''aria_label'' [''aria_label'', ''title'']
                     (primary_group ''aria_label'' example_icons 0) (indexed example_icons ! 0)"
    unfolding g by simp
  from none_primary_grouped [OF run1 i1 v1]
  have "length (primary_group ''aria_label'' example_single_None 0) = 1 \<longrightarrow>
          example_single_None ! 0 = dict_pop (example_single_None ! 0) ''_original_index''"
    by blast
  with l1 have one: "example_single_None ! 0 = dict_pop (example_single_None ! 0) ''_original_index''"
    by blast
  from run v g many run1 v1 l1 t1 one show ?thesis by simp
qed

text \<open>
  C10 as stated fails: the only record without a primary value has a field
  \<^verbatim>\<open>_original_index\<close>, and it does not pass through unchanged, since the field is removed.
\<close>

theorem reserved_field_counterexample:
  "get_nested_value (indexed example_reserved ! 0) ''aria_label'' = PNone
   \<and> length (primary_group ''aria_label'' example_reserved 0) = 1
   \<and> add_uniqueness_context example_reserved ''aria_label'' [''classes''] =
       Inr [[(''tag'', PStr ''svg''), (''aria_label'', PNone)]]
   \<and> [(''tag'', PStr ''svg''), (''aria_label'', PNone)] \<noteq> example_reserved ! 0"
  by code_simp

text \<open>
  The hypotheses of C5 at the two records of an example with empty and with absent fields.
\<close>

theorem missing_value_is_None_witness:
  "get_nested_value (example_bare ! 0) ''parent.id'' = PNone
   \<and> get_nested_value (example_bare ! 1) ''parent.id'' = PNone
   \<and> get_nested_value (example_bare ! 0) ''classes'' = PNone
   \<and> get_nested_value (example_bare ! 1) ''parent_classes'' = PNone
   \<and> get_nested_value (example_bare ! 1) ''parent_description'' = PNone
   \<and> get_nested_value (example_bare ! 0) ''parent_classes'' = PNone
   \<and> get_nested_value (example_bare ! 0) ''href'' = PNone
   \<and> get_nested_value (example_bare ! 1) ''href'' = PNone
   \<and> get_nested_value (example_bare ! 0) ''sibling_text'' = PNone
   \<and> get_nested_value (example_bare ! 0) ''id'' = PStr ''''
   \<and> group_by_value ''id'' example_bare [] =
        Inr [(PStr '''', [example_bare ! 0]), (PNone, [example_bare ! 1])]
   \<and> (PNone, [example_bare ! 1]) \<in> set [(PStr '''', [example_bare ! 0]), (PNone, [example_bare ! 1])]
   \<and> (PStr '''', [example_bare ! 0]) \<in> set [(PStr '''', [example_bare ! 0]), (PNone, [example_bare ! 1])]"
proof -
  let ?d = "example_bare ! 0"
  let ?e = "example_bare ! 1"
  let ?p = "[(''tag'', PStr ''div''), (''classes'', PList []), (''id'', PNone)]"
  let ?g = "[(PStr '''', [example_bare ! 0]), (PNone, [example_bare ! 1])]"
  have k: "''parent.id'' \<notin> set composite_keys" "''id'' \<notin> set composite_keys" by code_simp+
  have p0: "lookup_path (str_split ''.'' ''parent.id'') (PDict ?d) = Some PNone" by code_simp
  have p1: "lookup_path (str_split ''.'' ''parent.id'') (PDict ?e) = None" by code_simp
  have cl: "map_of ?d ''classes'' = Some (PList [])" by code_simp
  have par1: "\<not> truthy (dict_get ?e ''parent'')" by code_simp
  have par0: "dict_get ?d ''parent'' = PDict ?p" "\<not> truthy (dict_get ?p ''classes'')" by code_simp+
  have hr0: "\<not> truthy (dict_get_default ?d ''href'' (PStr ''''))" by code_simp
  have hr1: "\<not> truthy (dict_get_default ?e ''href'' (PStr ''''))" by code_simp
  have sib: "\<not> truthy (dict_get ?d ''next_sibling_text'') \<and> dict_get ?d ''prev_sibling_text'' = PNone"
    by code_simp
  have idv: "lookup_path (str_split ''.'' ''id'') (PDict ?d) = Some (PStr '''')" by code_simp
  have grp: "group_by_value ''id'' example_bare [] = Inr ?g" by code_simp
  have exN: "\<exists>e \<in> set example_bare. get_nested_value e ''id'' = PNone" by code_simp
  have exS: "\<exists>e \<in> set example_bare. get_nested_value e ''id'' = PStr ''''" by code_simp
  have fN: "filter (\<lambda>e. get_nested_value e ''id'' = PNone) example_bare = [example_bare ! 1]"
    by code_simp
  have fS: "filter (\<lambda>e. get_nested_value e ''id'' = PStr '''') example_bare = [example_bare ! 0]"
    by code_simp
  from missing_value_is_None [where l = "''parent.id''" and d = ?d and p = ?p] k(1) p0 cl par0 hr0 sib
  have 1: "get_nested_value ?d ''parent.id'' = PNone"
    and 2: "get_nested_value ?d ''classes'' = PNone"
    and 3: "get_nested_value ?d ''parent_classes'' = PNone"
    and 4: "get_nested_value ?d ''href'' = PNone"
    and 5: "get_nested_value ?d ''sibling_text'' = PNone"
    by blast+
  from missing_value_is_None [where l = "''parent.id''" and d = ?e] k(1) p1 par1 hr1
  have 6: "get_nested_value ?e ''parent.id'' = PNone"
    and 7: "get_nested_value ?e ''parent_classes'' = PNone"
    and 8: "get_nested_value ?e ''parent_description'' = PNone"
    and 9: "get_nested_value ?e ''href'' = PNone"
    by blast+
  from missing_value_is_None [where l = "''id''" and d = ?d and s = "''''" and A = example_bare and g = ?g]
    k(2) idv grp exN exS
  have 10: "get_nested_value ?d ''id'' = PStr ''''"
    and 11: "(PNone, filter (\<lambda>e. get_nested_value e ''id'' = PNone) example_bare) \<in> set ?g"
    and 12: "(PStr '''', filter (\<lambda>e. get_nested_value e ''id'' = PStr '''') example_bare) \<in> set ?g"
    by blast+
  from 1 2 3 4 5 6 7 8 9 10 11 12 grp show ?thesis unfolding fN fS by simp
qed

lemma yielded_simps [simp]:
  "yielded [] = []"
  "yielded (None # cs) = yielded cs"
  "yielded (Some r # cs) = r # yielded cs"
  by (simp_all add: yielded_def List.map_filter_def)

lemma take_nat_Cons:
  "c < N \<Longrightarrow> take (nat (N - c)) (r # rs) = r # take (nat (N - (c + 1))) rs"
proof -
  assume "c < N"
  then have "nat (N - c) = Suc (nat (N - (c + 1)))" by simp
  then show ?thesis by simp
qed

lemma collect_eq: "collect N c cs (els, cnt) = add_stage N (c, yielded cs) (els, cnt)"
proof (induction cs arbitrary: els cnt)
  case Nil
  then show ?case by (simp add: add_stage_def)
next
  case (Cons a cs)
  show ?case
  proof (cases "cnt \<ge> N")
    case True
    then show ?thesis by (simp add: add_stage_def)
  next
    case False
    then have lt: "cnt < N" by simp
    show ?thesis
    proof (cases a)
      case None
      then show ?thesis using False Cons.IH by simp
    next
      case (Some r)
      have "collect N c (a # cs) (els, cnt) = add_stage N (c, yielded cs) (append_to els c r, cnt + 1)"
        using Some False Cons.IH by simp
      also have "\<dots> = add_stage N (c, yielded (a # cs)) (els, cnt)"
        using Some by (simp add: add_stage_def append_to_def take_nat_Cons [OF lt] fun_eq_iff)
      finally show ?thesis .
    qed
  qed
qed

lemma collect_icons_eq: "collect_icons N c cs (els, cnt) = collect N c cs (els, cnt)"
proof (induction cs arbitrary: els cnt)
  case Nil
  then show ?case by simp
next
  case (Cons a cs)
  show ?case
  proof (cases a)
    case None
    then show ?thesis using Cons.IH by simp
  next
    case (Some r)
    have "collect N c cs (append_to els c r, cnt + 1) = (append_to els c r, cnt + 1)"
      if "N \<le> cnt + 1"
      using that by (cases cs) simp_all
    then show ?thesis using Some Cons.IH by simp
  qed
qed

lemma heading_loop_eq:
  "heading_loop N ls (els, i, cnt) =
     (fst (add_stage N (''headings'', numbered_headings i (filter (\<lambda>l. get_text_strip (here l) \<noteq> []) ls)) (els, cnt)),
      i + int (length (take (nat (N - cnt)) (filter (\<lambda>l. get_text_strip (here l) \<noteq> []) ls))),
      snd (add_stage N (''headings'', numbered_headings i (filter (\<lambda>l. get_text_strip (here l) \<noteq> []) ls)) (els, cnt)))"
proof (induction ls arbitrary: els i cnt)
  case Nil
  then show ?case by (simp add: add_stage_def)
next
  case (Cons l ls)
  have len: "length (numbered_headings j xs) = length xs" for j xs
    by (induction xs arbitrary: j) auto
  show ?case
  proof (cases "cnt \<ge> N")
    case True
    then show ?thesis by (simp add: add_stage_def)
  next
    case False
    then have lt: "cnt < N" by simp
    show ?thesis
    proof (cases "get_text_strip (here l) = []")
      case True
      then show ?thesis using False Cons.IH by simp
    next
      case tx: False
      show ?thesis
        using tx False Cons.IH
        by (simp add: add_stage_def append_to_def take_nat_Cons [OF lt] fun_eq_iff len Let_def)
    qed
  qed
qed

lemma add_stage_done: "budget_reached N st \<Longrightarrow> add_stage N s st = st"
  by (cases st) (simp add: budget_reached_def add_stage_def)

lemma add_stage_reached: "budget_reached N st \<Longrightarrow> budget_reached N (add_stage N s st)"
  by (simp add: add_stage_done)

lemma fold_add_stage:
  "fold (add_stage N) S (els, cnt) =
     (\<lambda>c. els c @ collected c (budgeted (nat (N - cnt)) S),
      cnt + int (length (concat (map snd (budgeted (nat (N - cnt)) S)))))"
proof (induction S arbitrary: els cnt)
  case Nil
  then show ?case by (simp add: collected_def)
next
  case (Cons s S)
  obtain c rs where s: "s = (c, rs)" by (cases s)
  define n where "n = nat (N - cnt)"
  define k where "k = length (take n rs)"
  have rem: "nat (N - (cnt + int k)) = n - k"
    unfolding n_def k_def by auto
  have "fold (add_stage N) (s # S) (els, cnt)
        = fold (add_stage N) S (els(c := els c @ take n rs), cnt + int k)"
    by (simp add: s add_stage_def n_def k_def)
  also have "\<dots> = (\<lambda>c'. (els(c := els c @ take n rs)) c' @ collected c' (budgeted (n - k) S),
      cnt + int k + int (length (concat (map snd (budgeted (n - k) S)))))"
    unfolding Cons.IH rem ..
  also have "\<dots> = (\<lambda>c'. els c' @ collected c' (budgeted n (s # S)),
      cnt + int (length (concat (map snd (budgeted n (s # S))))))"
    by (auto simp: s k_def collected_def fun_eq_iff)
  finally show ?case unfolding n_def .
qed




lemma early_return:
  "(budget_reached N st \<Longrightarrow> rest = non_empty (fst st)) \<Longrightarrow>
   (if budget_reached N st then non_empty (fst st) else rest) = rest"
  by simp

lemma parse_eq:
  assumes "\<not> is_sentinel html"
  shows "parse_html_for_elements P B html base N =
           non_empty (fst (fold (add_stage N) (extraction P B html base) (\<lambda>k. [], 0)))"
proof -
  define soup where "soup = cleaned P html"
  define b where "b = B soup base"
  define s1 where "s1 = add_stage N (''headings'', heading_records soup) (\<lambda>k. [], 0)"
  define s2 where "s2 = add_stage N (''paragraphs'', yielded (p_results b)) s1"
  define s3 where "s3 = add_stage N (''links'', yielded (a_results b)) s2"
  define s4 where "s4 = add_stage N (''buttons'', yielded (btn_results b)) s3"
  define s5 where "s5 = add_stage N (''images_and_logos'', yielded (img_results b)) s4"
  define s6 where "s6 = add_stage N (''icons'', yielded (tag_results b)) s5"
  define s7 where "s7 = add_stage N (''icons'', yielded (svg_results b)) s6"
  define s8 where "s8 = add_stage N (''forms'', yielded (form_results b)) s7"
  define s9 where "s9 = add_stage N (''semantic_elements'', yielded (map (semantic_result soup) semantic_tags)) s8"
  have col: "collect N c cs st = add_stage N (c, yielded cs) st" for c cs st
    by (cases st) (simp add: collect_eq)
  have ico: "collect_icons N c cs st = add_stage N (c, yielded cs) st" for c cs st
    by (cases st) (simp add: collect_icons_eq collect_eq)
  have hl: "heading_loop N (find_all [''h1'', ''h2'', ''h3'', ''h4'', ''h5'', ''h6'', ''h7''] soup) (\<lambda>k. [], 0, 0)
            = (fst s1, int (length (take (nat N) (headings_with_text soup))), snd s1)"
    unfolding heading_loop_eq s1_def heading_records_def headings_with_text_def by simp
  have r8: "(if budget_reached N s8 then non_empty (fst s8) else non_empty (fst s9)) = non_empty (fst s9)"
    by (rule early_return) (simp add: s9_def add_stage_done)
  have r7: "(if budget_reached N s7 then non_empty (fst s7) else non_empty (fst s9)) = non_empty (fst s9)"
    by (rule early_return) (simp add: s9_def s8_def add_stage_done)
  have r5: "(if budget_reached N s5 then non_empty (fst s5) else non_empty (fst s9)) = non_empty (fst s9)"
    by (rule early_return) (simp add: s9_def s8_def s7_def s6_def add_stage_done)
  have r4: "(if budget_reached N s4 then non_empty (fst s4) else non_empty (fst s9)) = non_empty (fst s9)"
    by (rule early_return) (simp add: s9_def s8_def s7_def s6_def s5_def add_stage_done)
  have r3: "(if budget_reached N s3 then non_empty (fst s3) else non_empty (fst s9)) = non_empty (fst s9)"
    by (rule early_return) (simp add: s9_def s8_def s7_def s6_def s5_def s4_def add_stage_done)
  have r2: "(if budget_reached N s2 then non_empty (fst s2) else non_empty (fst s9)) = non_empty (fst s9)"
    by (rule early_return) (simp add: s9_def s8_def s7_def s6_def s5_def s4_def s3_def add_stage_done)
  have "parse_html_for_elements P B html base N =
        (if budget_reached N s2 then non_empty (fst s2)
         else if budget_reached N s3 then non_empty (fst s3)
         else if budget_reached N s4 then non_empty (fst s4)
         else if budget_reached N s5 then non_empty (fst s5)
         else if budget_reached N s7 then non_empty (fst s7)
         else if budget_reached N s8 then non_empty (fst s8)
         else non_empty (fst s9))"
    using assms
    unfolding parse_html_for_elements_def is_sentinel_def Let_def cleaned_def [symmetric]
      soup_def [symmetric] b_def [symmetric] hl col ico
    unfolding prod.case prod.collapse
      s2_def [symmetric] s3_def [symmetric] s4_def [symmetric] s5_def [symmetric]
      s6_def [symmetric] s7_def [symmetric] s8_def [symmetric] s9_def [symmetric]
    by simp
  also have "\<dots> = non_empty (fst s9)"
    unfolding r8 r7 r5 r4 r3 r2 ..
  also have "s9 = fold (add_stage N) (extraction P B html base) (\<lambda>k. [], 0)"
    unfolding extraction_def stages_def soup_def [symmetric] b_def [symmetric]
    by (simp add: s9_def s8_def s7_def s6_def s5_def s4_def s3_def s2_def s1_def)
  finally show ?thesis .
qed

lemma map_fst_budgeted: "map fst (budgeted n S) = map fst S"
  by (induction S arbitrary: n) auto



lemma collected_outside:
  assumes "c \<notin> set (map fst st)"
  shows "collected c st = []"
  using assms by (induction st) (auto simp: collected_def)



lemma map_of_non_empty:
  "map_of (non_empty els) c =
     (if c \<in> set category_keys \<and> els c \<noteq> [] then Some (PList (map PDict (els c))) else None)"
  by (simp add: non_empty_def map_of_map_restrict restrict_map_def)

lemma records_of_non_empty:
  "records_of (non_empty els) c = (if c \<in> set category_keys then map PDict (els c) else [])"
  by (simp add: records_of_def map_of_non_empty)

lemma parse_elements:
  assumes "\<not> is_sentinel html"
  shows "parse_html_for_elements P B html base N =
           non_empty (\<lambda>c. collected c (budgeted (nat N) (extraction P B html base)))"
  unfolding parse_eq [OF assms] fold_add_stage by simp




text \<open>
  C8. For every input string that starts with \<^verbatim>\<open>Error fetching URL\<close>,
  \<^verbatim>\<open>parse_html_for_elements\<close> returns the mapping with the single key \<^verbatim>\<open>error\<close>, bound to
  that string; no category key is present.
\<close>

theorem fetch_failure_short_circuit:
  "startswith html ''Error fetching URL'' \<Longrightarrow>
   parse_html_for_elements P B html base N = [(''error'', PStr html)]"
  by (simp add: parse_html_for_elements_def)

lemma capture_siblings_eq:
  "length captured \<le> 3 \<Longrightarrow>
   capture_siblings sibs captured =
     captured @ map sibling_info (take (3 - length captured) (filter named sibs))"
proof (induction sibs arbitrary: captured)
  case Nil
  then show ?case by simp
next
  case (Cons s sibs)
  show ?case
  proof (cases "length captured < 3")
    case False
    with Cons.prems show ?thesis by simp
  next
    case True
    show ?thesis
    proof (cases "named s")
      case False
      then show ?thesis using True Cons.IH [OF Cons.prems] by (simp add: named_def)
    next
      case n: True
      have "length (captured @ [sibling_info s]) \<le> 3" using True by simp
      from Cons.IH [OF this] n True show ?thesis
        by (simp add: named_def Suc_diff_Suc take_Cons')
    qed
  qed
qed

lemma capture_ancestors_rest:
  "p \<notin> set ups \<Longrightarrow>
   capture_ancestors (Some p) ups (par, anc, ia) =
     (par, anc @ map parent_info (takeWhile named ups),
      ia @ map parent_info (filter is_interactive (takeWhile named ups)))"
proof (induction ups arbitrary: anc ia)
  case Nil
  then show ?case by simp
next
  case (Cons u ups)
  then have "u \<noteq> p" "p \<notin> set ups" by auto
  then show ?case using Cons.IH [OF \<open>p \<notin> set ups\<close>]
    by (simp add: named_def Let_def)
qed

lemma capture_ancestors_eq:
  assumes "ups = [] \<or> hd ups \<notin> set (tl ups)"
  shows "capture_ancestors (case ups of [] \<Rightarrow> None | p # _ \<Rightarrow> Some p) ups (PNone, [], []) =
     ((case takeWhile named ups of [] \<Rightarrow> PNone | p # _ \<Rightarrow> parent_info p),
      map parent_info (tl (takeWhile named ups)),
      map parent_info (filter is_interactive (takeWhile named ups)))"
proof (cases ups)
  case Nil
  then show ?thesis by simp
next
  case (Cons p rest)
  with assms have "p \<notin> set rest" by simp
  from capture_ancestors_rest [OF this] show ?thesis
    unfolding Cons by (simp add: named_def Let_def)
qed

lemma size_child: "c \<in> set cs \<Longrightarrow> size c < size (Tag n a cs)"
  by (induction cs) auto

lemma descendants_ascending:
  "ascending (t # ups) \<Longrightarrow> l \<in> set (descendants ups t) \<Longrightarrow> ascending (here l # parents l)"
  "(\<forall>c \<in> set cs. ascending (c # ups)) \<Longrightarrow> l \<in> set (descendants_list ups ls cs) \<Longrightarrow>
     ascending (here l # parents l)"
proof (induction ups t and ups ls cs arbitrary: l and l rule: descendants_descendants_list.induct)
  case (1 ups n a cs)
  have "ascending (c # Tag n a cs # ups)" if "c \<in> set cs" for c
  proof -
    have "size c < size (Tag n a cs)" using that by (rule size_child)
    moreover have "\<forall>u \<in> set ups. size (Tag n a cs) < size u"
      using "1.prems"(1) by (simp add: ascending_def)
    ultimately show ?thesis using "1.prems"(1) by (auto simp: ascending_def)
  qed
  then show ?case using "1.IH" "1.prems"(2) by simp
next
  case (2 ups s)
  then show ?case by simp
next
  case (3 ups s)
  then show ?case by simp
next
  case (4 ups ls)
  then show ?case by simp
next
  case (5 ups ls c cs)
  from "5.prems"(2) consider
    "l = \<lparr>here = c, parents = ups, previous_siblings = ls, next_siblings = cs\<rparr>"
    | "l \<in> set (descendants ups c)" | "l \<in> set (descendants_list ups (c # ls) cs)"
    by auto
  then show ?case
  proof cases
    case 1
    then show ?thesis using "5.prems"(1) by simp
  next
    case 2
    then show ?thesis using "5.IH"(1) "5.prems"(1) by simp
  next
    case 3
    then show ?thesis using "5.IH"(2) "5.prems"(1) by simp
  qed
qed

lemma found_parent_once:
  assumes "l \<in> set (find_all names soup)"
  shows "parents l = [] \<or> hd (parents l) \<notin> set (tl (parents l))"
proof -
  from assms have "l \<in> set (descendants [] soup)" by (simp add: find_all_def)
  moreover have "ascending [soup]" by (simp add: ascending_def)
  ultimately have "ascending (here l # parents l)" by (rule descendants_ascending(1) [rotated])
  then have a: "ascending (parents l)" by (simp add: ascending_def)
  show ?thesis
  proof (cases "parents l")
    case Nil
    then show ?thesis by simp
  next
    case (Cons p rest)
    with a have "\<forall>u \<in> set rest. size p < size u" by (simp add: ascending_def)
    then have "p \<notin> set rest" by auto
    then show ?thesis using Cons by simp
  qed
qed

lemma collected_headings:
  "collected ''headings'' (budgeted n (extraction P B html base)) =
     take n (heading_records (cleaned P html))"
proof -
  obtain rest where e: "extraction P B html base = (''headings'', heading_records (cleaned P html)) # rest"
    and r: "map fst rest = [''paragraphs'', ''links'', ''buttons'', ''images_and_logos'', ''icons'',
      ''icons'', ''forms'', ''semantic_elements'']"
    by (simp add: extraction_def stages_def)
  have "''headings'' \<notin> set (map fst (budgeted m rest))" for m
    unfolding map_fst_budgeted r by simp
  then have "collected ''headings'' (budgeted m rest) = []" for m
    by (rule collected_outside)
  then show ?thesis unfolding e by (simp add: collected_def)
qed

lemma parse_headings:
  assumes "\<not> is_sentinel html"
  shows "records_of (parse_html_for_elements P B html base N) ''headings'' =
           map PDict (take (nat N) (heading_records (cleaned P html)))"
  unfolding parse_elements [OF assms] records_of_non_empty collected_headings
  by (simp add: category_keys_def)

lemma numbered_headings_nth:
  "length (numbered_headings j ls) = length ls"
  "i < length ls \<Longrightarrow>
   numbered_headings j ls ! i = heading_record (ls ! i) (get_text_strip (here (ls ! i))) (j + int i)"
proof -
  show "length (numbered_headings j ls) = length ls"
    by (induction ls arbitrary: j) auto
  show "numbered_headings j ls ! i = heading_record (ls ! i) (get_text_strip (here (ls ! i))) (j + int i)"
    if "i < length ls"
    using that
  proof (induction ls arbitrary: j i)
    case Nil
    then show ?case by simp
  next
    case (Cons l ls)
    show ?case
    proof (cases i)
      case 0
      then show ?thesis by simp
    next
      case (Suc k)
      with Cons.prems have "k < length ls" by simp
      from Cons.IH [OF this, of "j + 1"] Suc show ?thesis by (simp add: add.assoc)
    qed
  qed
qed

lemma heading_record_eq:
  assumes "l \<in> set (find_all names soup)"
  shows "heading_record l tx j =
     [(''dom_context'', PDict
         [(''element'', PDict
             [(''tag'', PStr (node_name (here l))),
              (''attributes'', PDict (attrs (here l))),
              (''classes'', tag_get_default (here l) ''class'' (PList [])),
              (''id'', tag_get (here l) ''id''),
              (''aria_label'', tag_get (here l) ''aria-label''),
              (''text'', PStr tx),
              (''role'', tag_get (here l) ''role'')]),
          (''parent'', (case takeWhile named (parents l) of [] \<Rightarrow> PNone | p # _ \<Rightarrow> parent_info p)),
          (''ancestors'', PList (map parent_info (tl (takeWhile named (parents l))))),
          (''siblings'', PDict
             [(''previous'', PList (map sibling_info (take 3 (filter named (tag_siblings (previous_siblings l)))))),
              (''next'', PList (map sibling_info (take 3 (filter named (tag_siblings (next_siblings l))))))]),
          (''children'', PList (map sibling_info (tag_children (here l)))),
          (''interactive_parents'',
             PList (map parent_info (filter is_interactive (takeWhile named (parents l)))))]),
      (''sequential_index'', PInt j)]"
  unfolding heading_record_def Let_def
    capture_ancestors_eq [OF found_parent_once [OF assms]]
  by (simp add: capture_siblings_eq)

text \<open>
  C9. What the headings loop computes. For a document that is not the fetch sentinel, the
  category \<^verbatim>\<open>headings\<close> holds, in document order and up to the budget, the records of the
  tags that \<^verbatim>\<open>find_all\<close> returns for the names of line 111 and that have non-empty text,
  numbered from 0. The names of line 111 are h1 to h6 and also h7; in a document without a
  tag named h7 the headings are exactly the tags named h1 to h6 that have non-empty text,
  as the claim says. The other places of the function that test for a heading (lines 236,
  650, 658 and 667) use h1 to h6 only, so the name h7 of line 111 is a slip of the code and
  not a part of what the category is meant to hold. The record of a heading holds its own
  summary, its parent and further ancestors (the chain of \<^verbatim>\<open>.parents\<close> as far as the nodes
  are named, which in a parsed document is the whole chain up to the document), up to 3
  previous and 3 next siblings that are tags, its children that are tags, and those of its
  ancestors that are interactive.
\<close>

theorem headings_category:
  "(\<not> startswith html ''Error fetching URL'' \<longrightarrow>
      records_of (parse_html_for_elements P B html base N) ''headings'' =
        map PDict (take (nat N) (heading_records (decompose [''script'', ''style''] (P html)))))
   \<and> headings_with_text soup =
        filter (\<lambda>l. is_tag (here l)
                  \<and> node_name (here l) \<in> set [''h1'', ''h2'', ''h3'', ''h4'', ''h5'', ''h6'', ''h7'']
                  \<and> get_text_strip (here l) \<noteq> [])
          (descendants [] soup)
   \<and> ((\<forall>l \<in> set (descendants [] soup). node_name (here l) \<noteq> ''h7'') \<longrightarrow>
        headings_with_text soup =
          filter (\<lambda>l. is_tag (here l)
                    \<and> node_name (here l) \<in> set [''h1'', ''h2'', ''h3'', ''h4'', ''h5'', ''h6'']
                    \<and> get_text_strip (here l) \<noteq> [])
            (descendants [] soup))
   \<and> length (heading_records soup) = length (headings_with_text soup)
   \<and> (i < length (headings_with_text soup) \<longrightarrow>
        heading_records soup ! i =
          heading_record (headings_with_text soup ! i)
            (get_text_strip (here (headings_with_text soup ! i))) (int i))
   \<and> (l \<in> set (find_all names soup) \<longrightarrow>
       heading_record l tx j =
        [(''dom_context'', PDict
            [(''element'', PDict
                [(''tag'', PStr (node_name (here l))),
                 (''attributes'', PDict (attrs (here l))),
                 (''classes'', tag_get_default (here l) ''class'' (PList [])),
                 (''id'', tag_get (here l) ''id''),
                 (''aria_label'', tag_get (here l) ''aria-label''),
                 (''text'', PStr tx),
                 (''role'', tag_get (here l) ''role'')]),
             (''parent'', (case takeWhile named (parents l) of [] \<Rightarrow> PNone | p # _ \<Rightarrow> parent_info p)),
             (''ancestors'', PList (map parent_info (tl (takeWhile named (parents l))))),
             (''siblings'', PDict
                [(''previous'', PList (map sibling_info (take 3 (filter named (tag_siblings (previous_siblings l)))))),
                 (''next'', PList (map sibling_info (take 3 (filter named (tag_siblings (next_siblings l))))))]),
             (''children'', PList (map sibling_info (tag_children (here l)))),
             (''interactive_parents'',
                PList (map parent_info (filter is_interactive (takeWhile named (parents l)))))]),
         (''sequential_index'', PInt j)])"
proof -
  have 1: "records_of (parse_html_for_elements P B html base N) ''headings'' =
        map PDict (take (nat N) (heading_records (decompose [''script'', ''style''] (P html))))"
    if "\<not> startswith html ''Error fetching URL''"
    using parse_headings [of html P B base N] that by (simp add: is_sentinel_def cleaned_def)
  have 2: "headings_with_text soup =
        filter (\<lambda>l. is_tag (here l)
                  \<and> node_name (here l) \<in> set [''h1'', ''h2'', ''h3'', ''h4'', ''h5'', ''h6'', ''h7'']
                  \<and> get_text_strip (here l) \<noteq> [])
          (descendants [] soup)"
    unfolding headings_with_text_def find_all_def filter_filter by (rule filter_cong) auto
  have six: "headings_with_text soup =
          filter (\<lambda>l. is_tag (here l)
                    \<and> node_name (here l) \<in> set [''h1'', ''h2'', ''h3'', ''h4'', ''h5'', ''h6'']
                    \<and> get_text_strip (here l) \<noteq> [])
            (descendants [] soup)"
    if "\<forall>l \<in> set (descendants [] soup). node_name (here l) \<noteq> ''h7''"
    unfolding 2 using that by (intro filter_cong refl) auto
  have 3: "length (heading_records soup) = length (headings_with_text soup)"
    by (simp add: heading_records_def numbered_headings_nth(1))
  have 4: "heading_records soup ! i =
          heading_record (headings_with_text soup ! i)
            (get_text_strip (here (headings_with_text soup ! i))) (int i)"
    if "i < length (headings_with_text soup)"
    using numbered_headings_nth(2) [OF that, of 0] by (simp add: heading_records_def)
  note 5 = heading_record_eq [of l names soup tx j]
  show ?thesis using 1 2 six 3 4 5 by (intro conjI impI) simp_all
qed



text \<open>
  C8 at the sentinel \<^verbatim>\<open>Error fetching URL: timeout\<close>.
\<close>

theorem fetch_failure_short_circuit_witness:
  "startswith ''Error fetching URL: timeout'' ''Error fetching URL''
   \<and> parse_html_for_elements example_parser example_bodies ''Error fetching URL: timeout''
        ''http://example.com'' 5000 = [(''error'', PStr ''Error fetching URL: timeout'')]"
proof -
  have s: "startswith ''Error fetching URL: timeout'' ''Error fetching URL''" by code_simp
  from fetch_failure_short_circuit [OF s] s show ?thesis by simp
qed

text \<open>
  C9 at the example document with budget 1, and at a section without a tag named h7.
\<close>

theorem headings_category_witness:
  "records_of (parse_html_for_elements example_parser example_bodies ''<html></html>'' ''http://example.com'' 1)
      ''headings''
     = map PDict (take (nat 1) (heading_records (decompose [''script'', ''style''] (example_parser ''<html></html>''))))
   \<and> find_all [''h1''] example_document ! 0 \<in> set (find_all [''h1''] example_document)
   \<and> map element_tag
        (records_of (parse_html_for_elements example_parser example_bodies ''<html></html>'' ''http://example.com'' 1)
           ''headings'') = [PStr ''h1'']
   \<and> get_nested_value (heading_record (find_all [''h1''] example_document ! 0) ''Welcome'' 0)
        ''dom_context.parent'' = parent_info (Tag ''body'' []
             [Tag ''h1'' [(''id'', PStr ''top'')] [NavigableString ''Welcome''],
              Tag ''p'' [] [NavigableString ''Some introduction text''],
              Tag ''h7'' [] [NavigableString ''Fine print''],
              Tag ''nav'' [] []])
   \<and> list_all (\<lambda>l. node_name (here l) \<noteq> ''h7'') (descendants [] example_section)
   \<and> headings_with_text example_section =
        filter (\<lambda>l. is_tag (here l)
                    \<and> node_name (here l) \<in> set [''h1'', ''h2'', ''h3'', ''h4'', ''h5'', ''h6'']
                    \<and> get_text_strip (here l) \<noteq> [])
          (descendants [] example_section)
   \<and> map (\<lambda>l. node_name (here l)) (headings_with_text example_section) = [''h2'']"
proof -
  let ?l = "find_all [''h1''] example_document ! 0"
  have nh: "list_all (\<lambda>l. node_name (here l) \<noteq> ''h7'') (descendants [] example_section)"
    by code_simp
  then have nh': "\<forall>l \<in> set (descendants [] example_section). node_name (here l) \<noteq> ''h7''"
    by (simp add: list_all_iff)
  from headings_category [where soup = example_section] nh'
  have 3: "headings_with_text example_section =
        filter (\<lambda>l. is_tag (here l)
                    \<and> node_name (here l) \<in> set [''h1'', ''h2'', ''h3'', ''h4'', ''h5'', ''h6'']
                    \<and> get_text_strip (here l) \<noteq> [])
          (descendants [] example_section)"
    by blast
  have 4: "map (\<lambda>l. node_name (here l)) (headings_with_text example_section) = [''h2'']"
    by code_simp
  have ns: "\<not> startswith ''<html></html>'' ''Error fetching URL''" by code_simp
  have m: "?l \<in> set (find_all [''h1''] example_document)" by code_simp
  have t: "map element_tag
        (records_of (parse_html_for_elements example_parser example_bodies ''<html></html>'' ''http://example.com'' 1)
           ''headings'') = [PStr ''h1'']" by code_simp
  note h = headings_category [where html = "''<html></html>''" and P = example_parser
      and B = example_bodies and base = "''http://example.com''" and N = 1
      and l = ?l and names = "[''h1'']" and soup = example_document and tx = "''Welcome''" and j = 0]
  from h ns have 1: "records_of (parse_html_for_elements example_parser example_bodies ''<html></html>'' ''http://example.com'' 1)
      ''headings''
     = map PDict (take (nat 1) (heading_records (decompose [''script'', ''style''] (example_parser ''<html></html>''))))"
    by blast
  from h m have "heading_record ?l ''Welcome'' 0 =
        [(''dom_context'', PDict
            [(''element'', PDict
                [(''tag'', PStr (node_name (here ?l))),
                 (''attributes'', PDict (attrs (here ?l))),
                 (''classes'', tag_get_default (here ?l) ''class'' (PList [])),
                 (''id'', tag_get (here ?l) ''id''),
                 (''aria_label'', tag_get (here ?l) ''aria-label''),
                 (''text'', PStr ''Welcome''),
                 (''role'', tag_get (here ?l) ''role'')]),
             (''parent'', (case takeWhile named (parents ?l) of [] \<Rightarrow> PNone | p # _ \<Rightarrow> parent_info p)),
             (''ancestors'', PList (map parent_info (tl (takeWhile named (parents ?l))))),
             (''siblings'', PDict
                [(''previous'', PList (map sibling_info (take 3 (filter named (tag_siblings (previous_siblings ?l)))))),
                 (''next'', PList (map sibling_info (take 3 (filter named (tag_siblings (next_siblings ?l))))))]),
             (''children'', PList (map sibling_info (tag_children (here ?l)))),
             (''interactive_parents'',
                PList (map parent_info (filter is_interactive (takeWhile named (parents ?l)))))]),
         (''sequential_index'', PInt 0)]"
    by blast
  moreover have "get_nested_value
        [(''dom_context'', PDict
            [(''element'', PDict
                [(''tag'', PStr (node_name (here ?l))),
                 (''attributes'', PDict (attrs (here ?l))),
                 (''classes'', tag_get_default (here ?l) ''class'' (PList [])),
                 (''id'', tag_get (here ?l) ''id''),
                 (''aria_label'', tag_get (here ?l) ''aria-label''),
                 (''text'', PStr ''Welcome''),
                 (''role'', tag_get (here ?l) ''role'')]),
             (''parent'', (case takeWhile named (parents ?l) of [] \<Rightarrow> PNone | p # _ \<Rightarrow> parent_info p)),
             (''ancestors'', PList (map parent_info (tl (takeWhile named (parents ?l))))),
             (''siblings'', PDict
                [(''previous'', PList (map sibling_info (take 3 (filter named (tag_siblings (previous_siblings ?l)))))),
                 (''next'', PList (map sibling_info (take 3 (filter named (tag_siblings (next_siblings ?l))))))]),
             (''children'', PList (map sibling_info (tag_children (here ?l)))),
             (''interactive_parents'',
                PList (map parent_info (filter is_interactive (takeWhile named (parents ?l)))))]),
         (''sequential_index'', PInt 0)] ''dom_context.parent''
       = parent_info (Tag ''body'' []
             [Tag ''h1'' [(''id'', PStr ''top'')] [NavigableString ''Welcome''],
              Tag ''p'' [] [NavigableString ''Some introduction text''],
              Tag ''h7'' [] [NavigableString ''Fine print''],
              Tag ''nav'' [] []])"
    by code_simp
  ultimately have 2: "get_nested_value (heading_record ?l ''Welcome'' 0) ''dom_context.parent''
       = parent_info (Tag ''body'' []
             [Tag ''h1'' [(''id'', PStr ''top'')] [NavigableString ''Welcome''],
              Tag ''p'' [] [NavigableString ''Some introduction text''],
              Tag ''h7'' [] [NavigableString ''Fine print''],
              Tag ''nav'' [] []])"
    by simp
  from 1 m t 2 nh 3 4 show ?thesis by simp
qed

text \<open>
  C9 fails on the code at the example page: the list given to \<^verbatim>\<open>find_all\<close> at line 111
  names \<^verbatim>\<open>h7\<close> too, and the tag of that name is returned among the headings, though it is
  none of h1 to h6.
\<close>

theorem h7_heading_counterexample:
  "map element_tag
     (records_of (parse_html_for_elements example_parser example_bodies example_page
                    ''http://example.com'' 5000) ''headings'')
     = [PStr ''h1'', PStr ''h7'']
   \<and> ''h7'' \<notin> set [''h1'', ''h2'', ''h3'', ''h4'', ''h5'', ''h6'']"
  by code_simp

end
